theory Spec2Isabelle
  imports Main "HOL-Library.Word" "HOL-Library.Monad_Syntax"
begin

section \<open>The doubly-linked list of c-ares (\<open>src/lib/ares__llist.c\<close>)\<close>

text \<open>
  The C file keeps list headers and nodes in heap blocks that point at each other. The
  model keeps one typed heap for each of the two structs, a map from addresses to the
  struct stored there. A pointer is a 64-bit word and \<open>NULL\<close> is \<open>0\<close>; \<open>size_t\<close> is a
  64-bit word as well, so \<open>cnt++\<close> and \<open>cnt--\<close> wrap as they do in C.

  Reading or writing through a pointer that is \<open>NULL\<close> or that addresses no live block is
  undefined behaviour in C. Every operation of the model that dereferences a pointer
  therefore returns an \<open>option\<close>, and \<open>None\<close> stands for such an access.
\<close>

type_synonym ptr = "64 word"

record ares__llist =
  head :: ptr
  tail :: ptr
  destruct :: ptr
  cnt :: "64 word"

record ares__llist_node =
  data :: ptr
  prev :: ptr
  nxt :: ptr
  parent :: ptr

text \<open>
  The memory: the live list headers, the live nodes, and the destructor invocations made
  so far, oldest first, each as the pair of the function pointer that was called and the
  argument it was called with. The body of a destructor is the caller's code; the model
  records the call and takes the destructor not to touch the list's own blocks.
\<close>

record mem =
  list_heap :: "ptr \<rightharpoonup> ares__llist"
  node_heap :: "ptr \<rightharpoonup> ares__llist_node"
  calls :: "(ptr \<times> ptr) list"

definition load_list :: "mem \<Rightarrow> ptr \<Rightarrow> ares__llist option" where
  "load_list s p = (if p = 0 then None else list_heap s p)"

definition load_node :: "mem \<Rightarrow> ptr \<Rightarrow> ares__llist_node option" where
  "load_node s p = (if p = 0 then None else node_heap s p)"

definition store_list :: "mem \<Rightarrow> ptr \<Rightarrow> (ares__llist \<Rightarrow> ares__llist) \<Rightarrow> mem option" where
  "store_list s p f =
     (case load_list s p of
        None \<Rightarrow> None
      | Some L \<Rightarrow> Some (s\<lparr>list_heap := (list_heap s)(p \<mapsto> f L)\<rparr>))"

definition store_node ::
  "mem \<Rightarrow> ptr \<Rightarrow> (ares__llist_node \<Rightarrow> ares__llist_node) \<Rightarrow> mem option" where
  "store_node s p f =
     (case load_node s p of
        None \<Rightarrow> None
      | Some N \<Rightarrow> Some (s\<lparr>node_heap := (node_heap s)(p \<mapsto> f N)\<rparr>))"

subsection \<open>Creation\<close>

text \<open>
  \<open>ares_malloc\<close> is not part of the file. Its result is an argument \<open>m\<close> of every
  operation that allocates: \<open>0\<close> when the allocation fails, otherwise the address of the
  new block, which a correct allocator takes from outside the live blocks.
\<close>

definition ares__llist_create :: "mem \<Rightarrow> ptr \<Rightarrow> ptr \<Rightarrow> mem \<times> ptr" where
  "ares__llist_create s m d =
     (if m = 0 then (s, 0)
      else (s\<lparr>list_heap := (list_heap s)(m \<mapsto> \<lparr>head = 0, tail = 0, destruct = d, cnt = 0\<rparr>)\<rparr>,
            m))"

definition ares__llist_replace_destructor :: "mem \<Rightarrow> ptr \<Rightarrow> ptr \<Rightarrow> mem option" where
  "ares__llist_replace_destructor s list d =
     (if list = 0 then Some s else store_list s list (\<lambda>L. L\<lparr>destruct := d\<rparr>))"

subsection \<open>Insertion\<close>

datatype ares__llist_insert_type_t =
  ARES__LLIST_INSERT_HEAD | ARES__LLIST_INSERT_TAIL | ARES__LLIST_INSERT_BEFORE

definition link_head :: "mem \<Rightarrow> ptr \<Rightarrow> ptr \<Rightarrow> mem option" where
  "link_head s list node = do {
     L \<leftarrow> load_list s list;
     s \<leftarrow> store_node s node (\<lambda>N. N\<lparr>nxt := head L\<rparr>);
     s \<leftarrow> store_node s node (\<lambda>N. N\<lparr>prev := 0\<rparr>);
     L \<leftarrow> load_list s list;
     s \<leftarrow> (if head L \<noteq> 0 then store_node s (head L) (\<lambda>N. N\<lparr>prev := node\<rparr>) else Some s);
     store_list s list (\<lambda>L. L\<lparr>head := node\<rparr>)
   }"

definition link_tail :: "mem \<Rightarrow> ptr \<Rightarrow> ptr \<Rightarrow> mem option" where
  "link_tail s list node = do {
     s \<leftarrow> store_node s node (\<lambda>N. N\<lparr>nxt := 0\<rparr>);
     L \<leftarrow> load_list s list;
     s \<leftarrow> store_node s node (\<lambda>N. N\<lparr>prev := tail L\<rparr>);
     L \<leftarrow> load_list s list;
     s \<leftarrow> (if tail L \<noteq> 0 then store_node s (tail L) (\<lambda>N. N\<lparr>nxt := node\<rparr>) else Some s);
     store_list s list (\<lambda>L. L\<lparr>tail := node\<rparr>)
   }"

definition link_before :: "mem \<Rightarrow> ptr \<Rightarrow> ptr \<Rightarrow> mem option" where
  "link_before s at node = do {
     s \<leftarrow> store_node s node (\<lambda>N. N\<lparr>nxt := at\<rparr>);
     A \<leftarrow> load_node s at;
     s \<leftarrow> store_node s node (\<lambda>N. N\<lparr>prev := prev A\<rparr>);
     store_node s at (\<lambda>N. N\<lparr>prev := node\<rparr>)
   }"

text \<open>
  \<open>ares__llist_insert_at\<close>, statement by statement: the two early returns, the new
  block zeroed and given its value and parent, the redirection of an insertion before
  the head, the \<open>switch\<close>, the two repairs of an empty list, and the count.
\<close>

definition ares__llist_insert_at ::
  "mem \<Rightarrow> ptr \<Rightarrow> ptr \<Rightarrow> ares__llist_insert_type_t \<Rightarrow> ptr \<Rightarrow> ptr \<Rightarrow> (mem \<times> ptr) option" where
  "ares__llist_insert_at s m list type at val =
     (if list = 0 \<or> val = 0 then Some (s, 0)
      else if m = 0 then Some (s, 0)
      else do {
        let node = m;
        let s = s\<lparr>node_heap :=
                   (node_heap s)(node \<mapsto> \<lparr>data = val, prev = 0, nxt = 0, parent = list\<rparr>)\<rparr>;
        L \<leftarrow> load_list s list;
        let type = (if type = ARES__LLIST_INSERT_BEFORE \<and> (at = head L \<or> at = 0)
                    then ARES__LLIST_INSERT_HEAD else type);
        s \<leftarrow> (case type of
                ARES__LLIST_INSERT_HEAD \<Rightarrow> link_head s list node
              | ARES__LLIST_INSERT_TAIL \<Rightarrow> link_tail s list node
              | ARES__LLIST_INSERT_BEFORE \<Rightarrow> link_before s at node);
        L \<leftarrow> load_list s list;
        s \<leftarrow> (if tail L = 0 then store_list s list (\<lambda>L. L\<lparr>tail := node\<rparr>) else Some s);
        L \<leftarrow> load_list s list;
        s \<leftarrow> (if head L = 0 then store_list s list (\<lambda>L. L\<lparr>head := node\<rparr>) else Some s);
        s \<leftarrow> store_list s list (\<lambda>L. L\<lparr>cnt := cnt L + 1\<rparr>);
        Some (s, node)
      })"

definition ares__llist_insert_first :: "mem \<Rightarrow> ptr \<Rightarrow> ptr \<Rightarrow> ptr \<Rightarrow> (mem \<times> ptr) option" where
  "ares__llist_insert_first s m list val =
     ares__llist_insert_at s m list ARES__LLIST_INSERT_HEAD 0 val"

definition ares__llist_insert_last :: "mem \<Rightarrow> ptr \<Rightarrow> ptr \<Rightarrow> ptr \<Rightarrow> (mem \<times> ptr) option" where
  "ares__llist_insert_last s m list val =
     ares__llist_insert_at s m list ARES__LLIST_INSERT_TAIL 0 val"

definition ares__llist_insert_before :: "mem \<Rightarrow> ptr \<Rightarrow> ptr \<Rightarrow> ptr \<Rightarrow> (mem \<times> ptr) option" where
  "ares__llist_insert_before s m node val =
     (if node = 0 then Some (s, 0)
      else do {
        N \<leftarrow> load_node s node;
        ares__llist_insert_at s m (parent N) ARES__LLIST_INSERT_BEFORE node val
      })"

definition ares__llist_insert_after :: "mem \<Rightarrow> ptr \<Rightarrow> ptr \<Rightarrow> ptr \<Rightarrow> (mem \<times> ptr) option" where
  "ares__llist_insert_after s m node val =
     (if node = 0 then Some (s, 0)
      else do {
        N \<leftarrow> load_node s node;
        if nxt N = 0 then ares__llist_insert_last s m (parent N) val
        else ares__llist_insert_at s m (parent N) ARES__LLIST_INSERT_BEFORE (nxt N) val
      })"

subsection \<open>Accessors\<close>

definition ares__llist_node_first :: "mem \<Rightarrow> ptr \<Rightarrow> ptr option" where
  "ares__llist_node_first s list =
     (if list = 0 then Some 0 else map_option head (load_list s list))"

definition ares__llist_node_last :: "mem \<Rightarrow> ptr \<Rightarrow> ptr option" where
  "ares__llist_node_last s list =
     (if list = 0 then Some 0 else map_option tail (load_list s list))"

definition ares__llist_node_next :: "mem \<Rightarrow> ptr \<Rightarrow> ptr option" where
  "ares__llist_node_next s node =
     (if node = 0 then Some 0 else map_option nxt (load_node s node))"

definition ares__llist_node_prev :: "mem \<Rightarrow> ptr \<Rightarrow> ptr option" where
  "ares__llist_node_prev s node =
     (if node = 0 then Some 0 else map_option prev (load_node s node))"

definition ares__llist_node_val :: "mem \<Rightarrow> ptr \<Rightarrow> ptr option" where
  "ares__llist_node_val s node =
     (if node = 0 then Some 0 else map_option data (load_node s node))"

definition ares__llist_len :: "mem \<Rightarrow> ptr \<Rightarrow> 64 word option" where
  "ares__llist_len s list =
     (if list = 0 then Some 0 else map_option cnt (load_list s list))"

definition ares__llist_node_parent :: "mem \<Rightarrow> ptr \<Rightarrow> ptr option" where
  "ares__llist_node_parent s node =
     (if node = 0 then Some 0 else map_option parent (load_node s node))"

definition ares__llist_first_val :: "mem \<Rightarrow> ptr \<Rightarrow> ptr option" where
  "ares__llist_first_val s list =
     do { n \<leftarrow> ares__llist_node_first s list; ares__llist_node_val s n }"

definition ares__llist_last_val :: "mem \<Rightarrow> ptr \<Rightarrow> ptr option" where
  "ares__llist_last_val s list =
     do { n \<leftarrow> ares__llist_node_last s list; ares__llist_node_val s n }"

subsection \<open>Removal\<close>

text \<open>
  \<open>ares__llist_node_claim\<close>: the parent and the value are read first, then the four
  conditional repairs in the order of the source, then \<open>ares_free(node)\<close>, which takes
  the block out of the heap, then \<open>list->cnt--\<close>.
\<close>

definition ares__llist_node_claim :: "mem \<Rightarrow> ptr \<Rightarrow> (mem \<times> ptr) option" where
  "ares__llist_node_claim s node =
     (if node = 0 then Some (s, 0)
      else do {
        N \<leftarrow> load_node s node;
        let list = parent N;
        let val = data N;
        s \<leftarrow> (if prev N \<noteq> 0 then store_node s (prev N) (\<lambda>P. P\<lparr>nxt := nxt N\<rparr>) else Some s);
        N \<leftarrow> load_node s node;
        s \<leftarrow> (if nxt N \<noteq> 0 then store_node s (nxt N) (\<lambda>Q. Q\<lparr>prev := prev N\<rparr>) else Some s);
        N \<leftarrow> load_node s node;
        L \<leftarrow> load_list s list;
        s \<leftarrow> (if node = head L then store_list s list (\<lambda>L. L\<lparr>head := nxt N\<rparr>) else Some s);
        L \<leftarrow> load_list s list;
        s \<leftarrow> (if node = tail L then store_list s list (\<lambda>L. L\<lparr>tail := prev N\<rparr>) else Some s);
        let s = s\<lparr>node_heap := (node_heap s)(node := None)\<rparr>;
        s \<leftarrow> store_list s list (\<lambda>L. L\<lparr>cnt := cnt L - 1\<rparr>);
        Some (s, val)
      })"

definition ares__llist_node_destroy :: "mem \<Rightarrow> ptr \<Rightarrow> mem option" where
  "ares__llist_node_destroy s node =
     (if node = 0 then Some s
      else do {
        N \<leftarrow> load_node s node;
        L \<leftarrow> load_list s (parent N);
        let d = destruct L;
        (s, val) \<leftarrow> ares__llist_node_claim s node;
        Some (if val \<noteq> 0 \<and> d \<noteq> 0 then s\<lparr>calls := calls s @ [(d, val)]\<rparr> else s)
      })"

definition ares__llist_node_replace :: "mem \<Rightarrow> ptr \<Rightarrow> ptr \<Rightarrow> mem option" where
  "ares__llist_node_replace s node val =
     (if node = 0 then Some s
      else do {
        N \<leftarrow> load_node s node;
        L \<leftarrow> load_list s (parent N);
        let d = destruct L;
        let s = (if d \<noteq> 0 then s\<lparr>calls := calls s @ [(d, data N)]\<rparr> else s);
        store_node s node (\<lambda>N. N\<lparr>data := val\<rparr>)
      })"

text \<open>
  \<open>ares__llist_destroy\<close> runs \<open>while ((node = ares__llist_node_first(list)) != NULL)
  ares__llist_node_destroy(node)\<close> and then frees the header. Each round of the loop
  frees one node, so the number of live nodes is a measure for it.
\<close>

function destroy_loop :: "mem \<Rightarrow> ptr \<Rightarrow> mem option" where
  "destroy_loop s list =
     (case ares__llist_node_first s list of
        None \<Rightarrow> None
      | Some node \<Rightarrow>
          if node = 0 then Some s
          else (case ares__llist_node_destroy s node of
                  None \<Rightarrow> None
                | Some s' \<Rightarrow> destroy_loop s' list))"
  by pat_completeness auto
termination
proof (relation "measure (\<lambda>(s, list). card (dom (node_heap s)))")
  show "wf (measure (\<lambda>(s, list). card (dom (node_heap s))))" by simp
next
  fix s :: mem and list node :: ptr and s' :: mem
  assume nz: "node \<noteq> 0" and d: "ares__llist_node_destroy s node = Some s'"
  have sn: "dom (node_heap t') = dom (node_heap t)"
    if "(if c then store_node t p f else Some t) = Some t'" for c t p f t'
    using that by (auto simp: store_node_def load_node_def split: option.splits if_splits)
  have sl: "node_heap t' = node_heap t"
    if "(if c then store_list t p f else Some t) = Some t'" for c t p f t'
    using that by (auto simp: store_list_def load_list_def split: option.splits if_splits)
  from d nz obtain s5 v where c: "ares__llist_node_claim s node = Some (s5, v)"
    and s': "node_heap s' = node_heap s5"
    unfolding ares__llist_node_destroy_def
    by (auto simp: Let_def bind_eq_Some_conv split: if_splits)
  from c nz obtain N s1 s2 s3 s4 and N2 N3 :: ares__llist_node and L3 L4 :: ares__llist where
    N: "load_node s node = Some N"
    and s1: "(if prev N \<noteq> 0 then store_node s (prev N) (\<lambda>P. P\<lparr>nxt := nxt N\<rparr>)
              else Some s) = Some s1"
    and s2: "(if nxt N2 \<noteq> 0 then store_node s1 (nxt N2) (\<lambda>Q. Q\<lparr>prev := prev N2\<rparr>)
              else Some s1) = Some s2"
    and s3: "(if node = head L3 then store_list s2 (parent N) (\<lambda>L. L\<lparr>head := nxt N3\<rparr>)
              else Some s2) = Some s3"
    and s4: "(if node = tail L4 then store_list s3 (parent N) (\<lambda>L. L\<lparr>tail := prev N3\<rparr>)
              else Some s3) = Some s4"
    and s5: "store_list (s4\<lparr>node_heap := (node_heap s4)(node := None)\<rparr>)
                (parent N) (\<lambda>L. L\<lparr>cnt := cnt L - 1\<rparr>) = Some s5"
    unfolding ares__llist_node_claim_def
    by (simp add: Let_def bind_eq_Some_conv) (elim exE conjE, fast)
  have live: "node \<in> dom (node_heap s)"
    using N nz by (auto simp: load_node_def)
  have "node_heap s5 = (node_heap s4)(node := None)"
    using s5 by (auto simp: store_list_def load_list_def split: option.splits if_splits)
  then have "dom (node_heap s') = dom (node_heap s) - {node}"
    using sn[OF s1] sn[OF s2] sl[OF s3] sl[OF s4] s' by simp
  then have "card (dom (node_heap s')) < card (dom (node_heap s))"
    using live card_Diff1_less[of "dom (node_heap s)" node] by simp
  then show "((s', list), (s, list)) \<in> measure (\<lambda>(s, list). card (dom (node_heap s)))"
    by simp
qed

definition ares__llist_destroy :: "mem \<Rightarrow> ptr \<Rightarrow> mem option" where
  "ares__llist_destroy s list =
     (if list = 0 then Some s
      else do {
        s \<leftarrow> destroy_loop s list;
        _ \<leftarrow> load_list s list;
        Some (s\<lparr>list_heap := (list_heap s)(list := None)\<rparr>)
      })"

subsection \<open>Well-formed lists\<close>

text \<open>
  \<open>dseg h l p x xs y\<close>: following \<open>next\<close> from \<open>x\<close> visits exactly the nodes \<open>xs\<close>, in
  this order, and arrives at \<open>y\<close>; every node on the way is live, has parent \<open>l\<close>, and
  its \<open>prev\<close> is the node before it (\<open>p\<close> for the first one).
\<close>

fun dseg :: "(ptr \<rightharpoonup> ares__llist_node) \<Rightarrow> ptr \<Rightarrow> ptr \<Rightarrow> ptr \<Rightarrow> ptr list \<Rightarrow> ptr \<Rightarrow> bool" where
  "dseg h l p x [] y = (x = y)"
| "dseg h l p x (a # as) y =
     (x = a \<and> a \<noteq> 0 \<and>
      (case h a of
         None \<Rightarrow> False
       | Some N \<Rightarrow> prev N = p \<and> parent N = l \<and> dseg h l a (nxt N) as y))"

text \<open>
  \<open>wf_list s l xs\<close>: the header at \<open>l\<close> is live, its next-chain from \<open>head\<close> to \<open>NULL\<close>
  is \<open>xs\<close> with the \<open>prev\<close> links mirroring it, \<open>tail\<close> is the last node of the chain
  (\<open>NULL\<close> for the empty one), and \<open>cnt\<close> is the length of the chain.
\<close>

definition wf_list :: "mem \<Rightarrow> ptr \<Rightarrow> ptr list \<Rightarrow> bool" where
  "wf_list s l xs =
     (l \<noteq> 0 \<and> distinct xs \<and>
      (case list_heap s l of
         None \<Rightarrow> False
       | Some L \<Rightarrow> dseg (node_heap s) l 0 (head L) xs 0 \<and> tail L = last (0 # xs) \<and>
                   unat (cnt L) = length xs))"

text \<open>\<open>node_holds s n v\<close>: the node at \<open>n\<close> is live and stores the value \<open>v\<close>.\<close>

definition node_holds :: "mem \<Rightarrow> ptr \<Rightarrow> ptr \<Rightarrow> bool" where
  "node_holds s n v = (case node_heap s n of None \<Rightarrow> False | Some N \<Rightarrow> data N = v)"

subsection \<open>What a destruction hands to the destructor\<close>

text \<open>
  \<open>values_of s xs\<close> are the values stored in the nodes \<open>xs\<close>, in that order.
  \<open>destructor_calls d vs\<close> are the calls that \<open>ares__llist_node_destroy\<close> makes for
  the values \<open>vs\<close> under the destructor \<open>d\<close>: none when \<open>d\<close> is \<open>NULL\<close>, and none for a
  value that is \<open>NULL\<close>.
\<close>

definition values_of :: "mem \<Rightarrow> ptr list \<Rightarrow> ptr list" where
  "values_of s xs = List.map_filter (\<lambda>a. map_option data (load_node s a)) xs"

definition destructor_calls :: "ptr \<Rightarrow> ptr list \<Rightarrow> (ptr \<times> ptr) list" where
  "destructor_calls d vs = (if d = 0 then [] else map (Pair d) (filter (\<lambda>v. v \<noteq> 0) vs))"

subsection \<open>Concrete memories\<close>

text \<open>
  Memories used to evaluate the operations: no block at all (\<open>mem0\<close>); an empty list at
  address \<open>100\<close> with destructor \<open>77\<close> (\<open>demo0\<close>); the same list holding the values
  \<open>11\<close>, \<open>22\<close> (\<open>demo2\<close>) and \<open>11\<close>, \<open>22\<close>, \<open>33\<close> (\<open>demo3\<close>) in nodes at the
  addresses \<open>1\<close>, \<open>2\<close>, \<open>3\<close>; \<open>demo2\<close> after \<open>insert_before\<close> of the value \<open>99\<close> before
  its second node (\<open>demo2b\<close>); and a one-node list whose value was replaced by \<open>NULL\<close>
  (\<open>demo1z\<close>).
\<close>

definition mem0 :: mem where
  "mem0 = \<lparr>list_heap = Map.empty, node_heap = Map.empty, calls = []\<rparr>"

definition demo0 :: mem where
  "demo0 = \<lparr>list_heap = [100 \<mapsto> \<lparr>head = 0, tail = 0, destruct = 77, cnt = 0\<rparr>],
            node_heap = Map.empty, calls = []\<rparr>"

definition demo2 :: mem where
  "demo2 = \<lparr>list_heap = [100 \<mapsto> \<lparr>head = 1, tail = 2, destruct = 77, cnt = 2\<rparr>],
            node_heap = [1 \<mapsto> \<lparr>data = 11, prev = 0, nxt = 2, parent = 100\<rparr>,
                         2 \<mapsto> \<lparr>data = 22, prev = 1, nxt = 0, parent = 100\<rparr>],
            calls = []\<rparr>"

definition demo3 :: mem where
  "demo3 = \<lparr>list_heap = [100 \<mapsto> \<lparr>head = 1, tail = 3, destruct = 77, cnt = 3\<rparr>],
            node_heap = [1 \<mapsto> \<lparr>data = 11, prev = 0, nxt = 2, parent = 100\<rparr>,
                         2 \<mapsto> \<lparr>data = 22, prev = 1, nxt = 3, parent = 100\<rparr>,
                         3 \<mapsto> \<lparr>data = 33, prev = 2, nxt = 0, parent = 100\<rparr>],
            calls = []\<rparr>"

definition demo2b :: mem where
  "demo2b = \<lparr>list_heap = [100 \<mapsto> \<lparr>head = 1, tail = 2, destruct = 77, cnt = 3\<rparr>],
            node_heap = [1 \<mapsto> \<lparr>data = 11, prev = 0, nxt = 2, parent = 100\<rparr>,
                         2 \<mapsto> \<lparr>data = 22, prev = 3, nxt = 0, parent = 100\<rparr>,
                         3 \<mapsto> \<lparr>data = 99, prev = 1, nxt = 2, parent = 100\<rparr>],
            calls = []\<rparr>"

definition demo1z :: mem where
  "demo1z = \<lparr>list_heap = [100 \<mapsto> \<lparr>head = 1, tail = 1, destruct = 77, cnt = 1\<rparr>],
            node_heap = [1 \<mapsto> \<lparr>data = 0, prev = 0, nxt = 0, parent = 100\<rparr>],
            calls = [(77, 11)]\<rparr>"

section \<open>Properties\<close>

lemmas op_defs =
  ares__llist_create_def ares__llist_replace_destructor_def
  ares__llist_insert_first_def ares__llist_insert_last_def
  ares__llist_insert_before_def ares__llist_insert_after_def ares__llist_insert_at_def
  link_head_def link_tail_def link_before_def
  load_list_def load_node_def store_list_def store_node_def
  ares__llist_node_first_def ares__llist_node_last_def ares__llist_node_next_def
  ares__llist_node_prev_def ares__llist_node_val_def ares__llist_len_def
  ares__llist_node_parent_def ares__llist_first_val_def ares__llist_last_val_def
  ares__llist_node_claim_def ares__llist_node_destroy_def ares__llist_node_replace_def

text \<open>The concrete memories are what the interface builds.\<close>

lemma demo0_reached: "ares__llist_create mem0 100 77 = (demo0, 100)"
  by (simp add: ares__llist_create_def mem0_def demo0_def)

lemma demo2_reached:
  "do { (s, n1) \<leftarrow> ares__llist_insert_last demo0 1 100 11;
        (s, n2) \<leftarrow> ares__llist_insert_last s 2 100 22;
        Some (s, n1, n2) } = Some (demo2, 1, 2)"
  by (simp add: demo0_def demo2_def op_defs fun_upd_twist)

lemma demo3_reached:
  "ares__llist_insert_last demo2 3 100 33 = Some (demo3, 3)"
  by (simp add: demo2_def demo3_def op_defs fun_upd_twist)

lemma demo1z_reached:
  "do { (s, n) \<leftarrow> ares__llist_insert_last demo0 1 100 11;
        ares__llist_node_replace s n 0 } = Some demo1z"
  by (simp add: demo0_def demo1z_def op_defs)

lemma wf_demo2: "wf_list demo2 100 [1, 2]"
  by (simp add: wf_list_def demo2_def)

lemma wf_demo3: "wf_list demo3 100 [1, 2, 3]"
  by (simp add: wf_list_def demo3_def)

subsection \<open>Insertion at the boundaries\<close>

text \<open>
  C3, as stated: for every list and every value \<open>v\<close>,
  \<open>insert_before(node_first(list), v)\<close> is equivalent to \<open>insert_first(list, v)\<close>.
  This fails on the empty list: \<open>node_first\<close> is \<open>NULL\<close> there, \<open>insert_before\<close> returns
  \<open>NULL\<close> at its guard \<open>node == NULL\<close> and leaves the memory as it was, while
  \<open>insert_first\<close> links a new node.
\<close>

theorem insert_before_first_of_empty_counterexample:
  "ares__llist_node_first demo0 100 = Some 0
   \<and> ares__llist_insert_before demo0 1 0 11 = Some (demo0, 0)
   \<and> map_option snd (ares__llist_insert_first demo0 1 100 11) = Some 1
   \<and> ares__llist_insert_before demo0 1 0 11 \<noteq> ares__llist_insert_first demo0 1 100 11"
proof -
  have a: "ares__llist_node_first demo0 100 = Some 0"
    by (simp add: demo0_def load_list_def ares__llist_node_first_def)
  have b: "ares__llist_insert_before demo0 1 0 11 = Some (demo0, 0)"
    by (simp add: ares__llist_insert_before_def)
  have c: "map_option snd (ares__llist_insert_first demo0 1 100 11) = Some 1"
    by (simp add: demo0_def op_defs)
  from b c have "ares__llist_insert_before demo0 1 0 11 \<noteq> ares__llist_insert_first demo0 1 100 11"
    by auto
  with a b c show ?thesis by simp
qed

text \<open>
  C3, amended: for every list that is absent, or that is not empty and whose head node
  names the list as its parent, and for every value \<open>v\<close> and every outcome \<open>m\<close> of the
  allocation, \<open>insert_before(node_first(list), v)\<close> and \<open>insert_first(list, v)\<close> return
  the same node and leave the same memory.
\<close>

theorem insert_before_head_is_insert_first:
  assumes "l = 0 \<or> (\<exists>L N. load_list s l = Some L \<and> head L \<noteq> 0 \<and>
                           load_node s (head L) = Some N \<and> parent N = l)"
  shows "\<exists>h. ares__llist_node_first s l = Some h \<and>
             ares__llist_insert_before s m h v = ares__llist_insert_first s m l v"
proof -
  from assms consider "l = 0" | L N where "load_list s l = Some L" "head L \<noteq> 0"
    "load_node s (head L) = Some N" "parent N = l"
    by blast
  then show ?thesis
  proof cases
    case 1
    then show ?thesis
      by (simp add: ares__llist_node_first_def ares__llist_insert_before_def
          ares__llist_insert_first_def ares__llist_insert_at_def)
  next
    case 2
    then have l: "l \<noteq> 0" by (auto simp: load_list_def split: if_splits)
    have ll: "load_list (s\<lparr>node_heap := H\<rparr>) l = Some L" for H
      using 2(1) l by (simp add: load_list_def)
    have first: "ares__llist_node_first s l = Some (head L)"
      using 2(1) l by (simp add: ares__llist_node_first_def)
    have "ares__llist_insert_at s m l ARES__LLIST_INSERT_BEFORE (head L) v
          = ares__llist_insert_at s m l ARES__LLIST_INSERT_HEAD 0 v"
      by (simp add: ares__llist_insert_at_def ll Let_def)
    then have "ares__llist_insert_before s m (head L) v = ares__llist_insert_first s m l v"
      using 2 by (simp add: ares__llist_insert_before_def ares__llist_insert_first_def)
    with first show ?thesis by simp
  qed
qed

text \<open>The amended C3 on the two-node list, where both insertions succeed.\<close>

theorem insert_before_head_is_insert_first_witness:
  "(\<exists>L N. load_list demo2 100 = Some L \<and> head L \<noteq> 0 \<and>
          load_node demo2 (head L) = Some N \<and> parent N = 100)
   \<and> ares__llist_node_first demo2 100 = Some 1
   \<and> ares__llist_insert_before demo2 3 1 33 = ares__llist_insert_first demo2 3 100 33
   \<and> map_option snd (ares__llist_insert_first demo2 3 100 33) = Some 3"
proof -
  have h: "\<exists>L N. load_list demo2 100 = Some L \<and> head L \<noteq> 0 \<and>
                 load_node demo2 (head L) = Some N \<and> parent N = 100"
    by (simp add: demo2_def load_list_def load_node_def)
  have f: "ares__llist_node_first demo2 100 = Some 1"
    by (simp add: demo2_def load_list_def ares__llist_node_first_def)
  have r: "map_option snd (ares__llist_insert_first demo2 3 100 33) = Some 3"
    by (simp add: demo2_def op_defs)
  from insert_before_head_is_insert_first[of 100 demo2 3 33] h f r show ?thesis
    by simp
qed

text \<open>
  C4, as stated: for every list and every value \<open>v\<close>,
  \<open>insert_after(node_last(list), v)\<close> is equivalent to \<open>insert_last(list, v)\<close>.
  This fails on the empty list in the same way: \<open>node_last\<close> is \<open>NULL\<close>, \<open>insert_after\<close>
  returns \<open>NULL\<close> at its guard, and \<open>insert_last\<close> links a new node.
\<close>

theorem insert_after_last_of_empty_counterexample:
  "ares__llist_node_last demo0 100 = Some 0
   \<and> ares__llist_insert_after demo0 1 0 11 = Some (demo0, 0)
   \<and> map_option snd (ares__llist_insert_last demo0 1 100 11) = Some 1
   \<and> ares__llist_insert_after demo0 1 0 11 \<noteq> ares__llist_insert_last demo0 1 100 11"
proof -
  have a: "ares__llist_node_last demo0 100 = Some 0"
    by (simp add: demo0_def load_list_def ares__llist_node_last_def)
  have b: "ares__llist_insert_after demo0 1 0 11 = Some (demo0, 0)"
    by (simp add: ares__llist_insert_after_def)
  have c: "map_option snd (ares__llist_insert_last demo0 1 100 11) = Some 1"
    by (simp add: demo0_def op_defs)
  from b c have "ares__llist_insert_after demo0 1 0 11 \<noteq> ares__llist_insert_last demo0 1 100 11"
    by auto
  with a b c show ?thesis by simp
qed

text \<open>
  C4, amended: for every list that is absent, or that is not empty and whose tail node
  names the list as its parent and has no successor, and for every value \<open>v\<close> and every
  outcome \<open>m\<close> of the allocation, \<open>insert_after(node_last(list), v)\<close> and
  \<open>insert_last(list, v)\<close> return the same node and leave the same memory.
\<close>

theorem insert_after_tail_is_insert_last:
  assumes "l = 0 \<or> (\<exists>L N. load_list s l = Some L \<and> tail L \<noteq> 0 \<and>
                           load_node s (tail L) = Some N \<and> parent N = l \<and> nxt N = 0)"
  shows "\<exists>t. ares__llist_node_last s l = Some t \<and>
             ares__llist_insert_after s m t v = ares__llist_insert_last s m l v"
proof -
  from assms consider "l = 0" | L N where "load_list s l = Some L" "tail L \<noteq> 0"
    "load_node s (tail L) = Some N" "parent N = l" "nxt N = 0"
    by blast
  then show ?thesis
  proof cases
    case 1
    then show ?thesis
      by (simp add: ares__llist_node_last_def ares__llist_insert_after_def
          ares__llist_insert_last_def ares__llist_insert_at_def)
  next
    case 2
    then have l: "l \<noteq> 0" by (auto simp: load_list_def split: if_splits)
    have last: "ares__llist_node_last s l = Some (tail L)"
      using 2(1) l by (simp add: ares__llist_node_last_def)
    have "ares__llist_insert_after s m (tail L) v = ares__llist_insert_last s m l v"
      using 2 by (simp add: ares__llist_insert_after_def)
    with last show ?thesis by simp
  qed
qed

text \<open>The amended C4 on the two-node list, where both insertions succeed.\<close>

theorem insert_after_tail_is_insert_last_witness:
  "(\<exists>L N. load_list demo2 100 = Some L \<and> tail L \<noteq> 0 \<and>
          load_node demo2 (tail L) = Some N \<and> parent N = 100 \<and> nxt N = 0)
   \<and> ares__llist_node_last demo2 100 = Some 2
   \<and> ares__llist_insert_after demo2 3 2 33 = ares__llist_insert_last demo2 3 100 33
   \<and> map_option snd (ares__llist_insert_last demo2 3 100 33) = Some 3"
proof -
  have h: "\<exists>L N. load_list demo2 100 = Some L \<and> tail L \<noteq> 0 \<and>
                 load_node demo2 (tail L) = Some N \<and> parent N = 100 \<and> nxt N = 0"
    by (simp add: demo2_def load_list_def load_node_def)
  have f: "ares__llist_node_last demo2 100 = Some 2"
    by (simp add: demo2_def load_list_def ares__llist_node_last_def)
  have r: "map_option snd (ares__llist_insert_last demo2 3 100 33) = Some 3"
    by (simp add: demo2_def op_defs)
  from insert_after_tail_is_insert_last[of 100 demo2 3 33] h f r show ?thesis
    by simp
qed

subsection \<open>Failed allocation\<close>

text \<open>
  C8: for every insertion operation, if the allocation of the node fails (\<open>m = 0\<close>) the
  operation returns \<open>NULL\<close> and the memory (every header with its head, tail, count and
  destructor, every node with its links and value, and the destructor calls) is the one
  it started from. \<open>insert_before\<close> and \<open>insert_after\<close> read the node they are given, so
  that node is \<open>NULL\<close> or live.
\<close>

theorem insert_alloc_failure_unchanged:
  assumes "node = 0 \<or> node_heap s node \<noteq> None"
  shows "ares__llist_insert_first s 0 list val = Some (s, 0)
       \<and> ares__llist_insert_last s 0 list val = Some (s, 0)
       \<and> ares__llist_insert_before s 0 node val = Some (s, 0)
       \<and> ares__llist_insert_after s 0 node val = Some (s, 0)"
proof -
  have at: "ares__llist_insert_at s 0 l ty a val = Some (s, 0)" for l ty a
    by (simp add: ares__llist_insert_at_def)
  have "ares__llist_insert_before s 0 node val = Some (s, 0)"
    using assms by (auto simp: ares__llist_insert_before_def load_node_def at)
  moreover have "ares__llist_insert_after s 0 node val = Some (s, 0)"
    using assms
    by (auto simp: ares__llist_insert_after_def ares__llist_insert_last_def load_node_def at)
  ultimately show ?thesis
    by (simp add: ares__llist_insert_first_def ares__llist_insert_last_def at)
qed

text \<open>C8 on the two-node list, with its tail as the node of the relative insertions.\<close>

theorem insert_alloc_failure_unchanged_witness:
  "(2 = (0 :: ptr) \<or> node_heap demo2 2 \<noteq> None)
   \<and> ares__llist_insert_first demo2 0 100 33 = Some (demo2, 0)
   \<and> ares__llist_insert_last demo2 0 100 33 = Some (demo2, 0)
   \<and> ares__llist_insert_before demo2 0 2 33 = Some (demo2, 0)
   \<and> ares__llist_insert_after demo2 0 2 33 = Some (demo2, 0)"
  using insert_alloc_failure_unchanged[of 2 demo2 100 33]
  by (simp add: demo2_def)

subsection \<open>Absent arguments\<close>

text \<open>
  C9, as stated: for every operation of the public interface, passing an absent list,
  node or value where one is required is a no-op that returns an absent/default result
  and mutates nothing; in particular for \<open>replace(node, value)\<close> with an absent value.
  This fails for \<open>replace\<close>: the function tests only \<open>node == NULL\<close>, so on a live node
  and the value \<open>NULL\<close> it calls the destructor on the old value and stores \<open>NULL\<close>.
\<close>

theorem replace_absent_value_counterexample:
  "ares__llist_node_val demo2 1 = Some 11
   \<and> (do { s \<leftarrow> ares__llist_node_replace demo2 1 0; ares__llist_node_val s 1 }) = Some 0
   \<and> map_option calls (ares__llist_node_replace demo2 1 0) = Some [(77, 11)]
   \<and> calls demo2 = []
   \<and> ares__llist_node_replace demo2 1 0 \<noteq> Some demo2"
proof -
  have a: "ares__llist_node_val demo2 1 = Some 11"
    by (simp add: demo2_def op_defs)
  have b: "(do { s \<leftarrow> ares__llist_node_replace demo2 1 0; ares__llist_node_val s 1 }) = Some 0"
    by (simp add: demo2_def op_defs)
  have c: "map_option calls (ares__llist_node_replace demo2 1 0) = Some [(77, 11)]"
    by (simp add: demo2_def op_defs)
  have d: "calls demo2 = []"
    by (simp add: demo2_def)
  from c d have "ares__llist_node_replace demo2 1 0 \<noteq> Some demo2"
    by auto
  with a b c d show ?thesis by simp
qed

text \<open>
  C9, amended: for every operation of the public interface, passing an absent list or an
  absent node is a no-op that returns an absent/default result and leaves the memory as
  it was, and so is every insertion with an absent value (the node \<open>n\<close> that a relative
  insertion is given with it being \<open>NULL\<close> or live); \<open>replace(node, value)\<close> with a live
  node and an absent value is not a no-op: it invokes the list's destructor, if set, on
  the node's old value and stores the absent value.
\<close>

theorem absent_arguments_are_noops:
  assumes "n = 0 \<or> node_heap s n \<noteq> None"
  shows "ares__llist_replace_destructor s 0 d = Some s
     \<and> ares__llist_insert_first s m 0 v = Some (s, 0)
     \<and> ares__llist_insert_first s m l 0 = Some (s, 0)
     \<and> ares__llist_insert_last s m 0 v = Some (s, 0)
     \<and> ares__llist_insert_last s m l 0 = Some (s, 0)
     \<and> ares__llist_insert_before s m 0 v = Some (s, 0)
     \<and> ares__llist_insert_before s m n 0 = Some (s, 0)
     \<and> ares__llist_insert_after s m 0 v = Some (s, 0)
     \<and> ares__llist_insert_after s m n 0 = Some (s, 0)
     \<and> ares__llist_node_first s 0 = Some 0
     \<and> ares__llist_node_last s 0 = Some 0
     \<and> ares__llist_node_next s 0 = Some 0
     \<and> ares__llist_node_prev s 0 = Some 0
     \<and> ares__llist_node_val s 0 = Some 0
     \<and> ares__llist_len s 0 = Some 0
     \<and> ares__llist_node_parent s 0 = Some 0
     \<and> ares__llist_first_val s 0 = Some 0
     \<and> ares__llist_last_val s 0 = Some 0
     \<and> ares__llist_node_claim s 0 = Some (s, 0)
     \<and> ares__llist_node_destroy s 0 = Some s
     \<and> ares__llist_node_replace s 0 v = Some s
     \<and> ares__llist_destroy s 0 = Some s
     \<and> (\<forall>k N L. load_node s k = Some N \<and> load_list s (parent N) = Some L \<longrightarrow>
           ares__llist_node_replace s k 0 =
             Some ((if destruct L \<noteq> 0 then s\<lparr>calls := calls s @ [(destruct L, data N)]\<rparr> else s)
                   \<lparr>node_heap := (node_heap s)(k \<mapsto> N\<lparr>data := 0\<rparr>)\<rparr>))"
proof -
  have at: "ares__llist_insert_at s m l' ty a 0 = Some (s, 0)" for l' ty a
    by (simp add: ares__llist_insert_at_def)
  have at0: "ares__llist_insert_at s m 0 ty a v = Some (s, 0)" for ty a
    by (simp add: ares__llist_insert_at_def)
  have b: "ares__llist_insert_before s m n 0 = Some (s, 0)"
    using assms by (auto simp: ares__llist_insert_before_def load_node_def at)
  have a: "ares__llist_insert_after s m n 0 = Some (s, 0)"
    using assms
    by (auto simp: ares__llist_insert_after_def ares__llist_insert_last_def load_node_def at)
  have r: "\<forall>k N L. load_node s k = Some N \<and> load_list s (parent N) = Some L \<longrightarrow>
           ares__llist_node_replace s k 0 =
             Some ((if destruct L \<noteq> 0 then s\<lparr>calls := calls s @ [(destruct L, data N)]\<rparr> else s)
                   \<lparr>node_heap := (node_heap s)(k \<mapsto> N\<lparr>data := 0\<rparr>)\<rparr>)"
    by (auto simp: ares__llist_node_replace_def store_node_def load_node_def Let_def
             split: if_splits)
  show ?thesis
    apply (intro conjI)
    by (fact a b r | simp add: at at0 ares__llist_replace_destructor_def
          ares__llist_insert_first_def ares__llist_insert_last_def
          ares__llist_insert_before_def ares__llist_insert_after_def
          ares__llist_node_first_def ares__llist_node_last_def ares__llist_node_next_def
          ares__llist_node_prev_def ares__llist_node_val_def ares__llist_len_def
          ares__llist_node_parent_def ares__llist_first_val_def ares__llist_last_val_def
          ares__llist_node_claim_def ares__llist_node_destroy_def ares__llist_node_replace_def
          ares__llist_destroy_def)+
qed

text \<open>The amended C9 on the two-node list.\<close>

theorem absent_arguments_are_noops_witness:
  "(2 = (0 :: ptr) \<or> node_heap demo2 2 \<noteq> None)
   \<and> ares__llist_insert_before demo2 3 2 0 = Some (demo2, 0)
   \<and> ares__llist_insert_after demo2 3 2 0 = Some (demo2, 0)
   \<and> ares__llist_insert_last demo2 3 100 0 = Some (demo2, 0)
   \<and> ares__llist_node_claim demo2 0 = Some (demo2, 0)
   \<and> load_node demo2 1 = Some \<lparr>data = 11, prev = 0, nxt = 2, parent = 100\<rparr>
   \<and> load_list demo2 100 = Some \<lparr>head = 1, tail = 2, destruct = 77, cnt = 2\<rparr>
   \<and> ares__llist_node_replace demo2 1 0 =
       Some (demo2\<lparr>calls := [(77, 11)],
                   node_heap := (node_heap demo2)(1 \<mapsto> \<lparr>data = 0, prev = 0, nxt = 2, parent = 100\<rparr>)\<rparr>)"
proof -
  have h: "2 = (0 :: ptr) \<or> node_heap demo2 2 \<noteq> None"
    by (simp add: demo2_def)
  have N: "load_node demo2 1 = Some \<lparr>data = 11, prev = 0, nxt = 2, parent = 100\<rparr>"
    by (simp add: demo2_def load_node_def)
  have L: "load_list demo2 100 = Some \<lparr>head = 1, tail = 2, destruct = 77, cnt = 2\<rparr>"
    by (simp add: demo2_def load_list_def)
  have c: "calls demo2 = []" by (simp add: demo2_def)
  note t = absent_arguments_are_noops[OF h, of 0 3 0 100]
  from t have r: "\<forall>k N L. load_node demo2 k = Some N \<and> load_list demo2 (parent N) = Some L \<longrightarrow>
           ares__llist_node_replace demo2 k 0 =
             Some ((if destruct L \<noteq> 0
                    then demo2\<lparr>calls := calls demo2 @ [(destruct L, data N)]\<rparr> else demo2)
                   \<lparr>node_heap := (node_heap demo2)(k \<mapsto> N\<lparr>data := 0\<rparr>)\<rparr>)"
    by (elim conjE)
  have "ares__llist_node_replace demo2 1 0 =
       Some (demo2\<lparr>calls := [(77, 11)],
                   node_heap := (node_heap demo2)(1 \<mapsto> \<lparr>data = 0, prev = 0, nxt = 2, parent = 100\<rparr>)\<rparr>)"
    using r[rule_format, of 1 _ "\<lparr>head = 1, tail = 2, destruct = 77, cnt = 2\<rparr>", OF conjI[OF N]] L c
    by simp
  with t h N L show ?thesis by simp
qed

subsection \<open>Insertion before a node that is not the head\<close>

text \<open>
  The case \<open>ARES__LLIST_INSERT_BEFORE\<close> of the \<open>switch\<close> sets \<open>node->next\<close>,
  \<open>node->prev\<close> and \<open>at->prev\<close>, and never \<open>at->prev->next\<close>: the node that was before
  \<open>at\<close> keeps \<open>at\<close> as its successor. The cases for the head and the tail do update the
  neighbour's link. The three evaluations below start from the two-node list \<open>demo2\<close>
  and insert the value \<open>99\<close> before its second node, with the new block at address \<open>3\<close>.
\<close>

text \<open>
  C1: after every sequence of successful insertions \<open>len(list)\<close> is the number of nodes
  reachable by following \<open>next\<close> from the head. On the code: after the insertion the
  count is \<open>3\<close>, and the walk from the head visits node \<open>1\<close>, then node \<open>2\<close>, and ends.
\<close>

theorem insert_before_inner_count_evaluation:
  "wf_list demo2 100 [1, 2]
   \<and> ares__llist_insert_before demo2 3 2 99 = Some (demo2b, 3)
   \<and> ares__llist_len demo2b 100 = Some 3
   \<and> ares__llist_node_first demo2b 100 = Some 1
   \<and> ares__llist_node_next demo2b 1 = Some 2
   \<and> ares__llist_node_next demo2b 2 = Some 0
   \<and> ares__llist_node_last demo2b 100 = Some 2"
proof -
  have "ares__llist_insert_before demo2 3 2 99 = Some (demo2b, 3)"
    by (simp add: demo2_def demo2b_def op_defs fun_upd_twist)
  moreover have "ares__llist_len demo2b 100 = Some 3"
    and "ares__llist_node_first demo2b 100 = Some 1"
    and "ares__llist_node_next demo2b 1 = Some 2"
    and "ares__llist_node_next demo2b 2 = Some 0"
    and "ares__llist_node_last demo2b 100 = Some 2"
    by (simp_all add: demo2b_def op_defs)
  ultimately show ?thesis using wf_demo2 by simp
qed

text \<open>
  C2: after \<open>insert_before(n, v)\<close> on a linked node \<open>n\<close> that is not the head, the former
  predecessor's \<open>next\<close> is the new node, the new node's \<open>next\<close> is \<open>n\<close>, the \<open>prev\<close> links
  mirror this, and the count went up by one. On the code: node \<open>1\<close> was the predecessor
  of node \<open>2\<close>, and after the insertion its \<open>next\<close> is still \<open>2\<close>, not the new node \<open>3\<close>;
  the other three links and the count are as the claim says.
\<close>

theorem insert_before_inner_links_evaluation:
  "ares__llist_node_prev demo2 2 = Some 1
   \<and> map_option snd (ares__llist_insert_before demo2 3 2 99) = Some 3
   \<and> (do { (s, n) \<leftarrow> ares__llist_insert_before demo2 3 2 99; ares__llist_node_next s 1 }) = Some 2
   \<and> (do { (s, n) \<leftarrow> ares__llist_insert_before demo2 3 2 99; ares__llist_node_next s n }) = Some 2
   \<and> (do { (s, n) \<leftarrow> ares__llist_insert_before demo2 3 2 99; ares__llist_node_prev s n }) = Some 1
   \<and> (do { (s, n) \<leftarrow> ares__llist_insert_before demo2 3 2 99; ares__llist_node_prev s 2 }) = Some 3
   \<and> (do { (s, n) \<leftarrow> ares__llist_insert_before demo2 3 2 99; ares__llist_len s 100 }) = Some 3"
  by (simp add: demo2_def op_defs)

text \<open>
  C10: an insertion stores a value that is not \<open>NULL\<close>, so for a list operated on only by
  create, insertions, claim and destroy, \<open>first_val\<close> and \<open>last_val\<close> are \<open>NULL\<close> if and
  only if the list is empty. On the code: after the insertion before node \<open>2\<close>, claiming
  node \<open>1\<close> and then node \<open>2\<close> returns their values \<open>11\<close> and \<open>22\<close> and leaves head and
  tail \<open>NULL\<close>, so \<open>first_val\<close> and \<open>last_val\<close> are \<open>NULL\<close>; the inserted node \<open>3\<close> was never
  removed, still holds \<open>99\<close> and names the list as its parent, and \<open>len\<close> is \<open>1\<close>.
\<close>

theorem first_val_null_nonempty_evaluation:
  "(do { (s, n) \<leftarrow> ares__llist_insert_before demo2 3 2 99;
         (s, v1) \<leftarrow> ares__llist_node_claim s 1;
         (s, v2) \<leftarrow> ares__llist_node_claim s 2;
         fv \<leftarrow> ares__llist_first_val s 100;
         lv \<leftarrow> ares__llist_last_val s 100;
         k \<leftarrow> ares__llist_len s 100;
         nv \<leftarrow> ares__llist_node_val s n;
         np \<leftarrow> ares__llist_node_parent s n;
         Some (n, v1, v2, fv, lv, k, nv, np) })
   = Some (3, 11, 22, 0, 0, 1, 99, 100)"
  by (simp add: demo2_def op_defs)

subsection \<open>Chains under heap updates\<close>

declare destroy_loop.simps [simp del]

lemma dseg_append:
  "dseg h l p x (ys @ zs) y \<longleftrightarrow> (\<exists>m. dseg h l p x ys m \<and> dseg h l (last (p # ys)) m zs y)"
  by (induction ys arbitrary: p x) (auto split: option.splits)

lemma dseg_frame:
  "a \<notin> set xs \<Longrightarrow> dseg (h(a := v)) l p x xs y = dseg h l p x xs y"
  by (induction xs arbitrary: p x) (auto split: option.splits)

lemma dseg_nonzero: "dseg h l p x xs y \<Longrightarrow> 0 \<notin> set xs"
  by (induction xs arbitrary: p x) (auto split: option.splits)

lemma dseg_first: "dseg h l p x xs y \<Longrightarrow> x = hd (xs @ [y])"
  by (cases xs) auto

lemma dseg_set_next:
  assumes "dseg h l p x (ys @ [a]) y" and "a \<notin> set ys" and "h a = Some A"
  shows "dseg (h(a \<mapsto> A\<lparr>nxt := q\<rparr>)) l p x (ys @ [a]) q"
  using assms by (auto simp: dseg_append dseg_frame)

lemma dseg_set_prev:
  assumes "dseg h l p' x (a # zs) y" and "a \<notin> set zs" and "h a = Some A"
  shows "dseg (h(a \<mapsto> A\<lparr>prev := p\<rparr>)) l p x (a # zs) y"
  using assms by (auto simp: dseg_frame)



lemma claim_result:
  assumes n: "n \<noteq> 0" and l: "l \<noteq> 0"
    and N: "node_heap s n = Some N" and par: "parent N = l"
    and L: "list_heap s l = Some L"
    and P: "prev N \<noteq> 0 \<Longrightarrow> node_heap s (prev N) = Some P" and pn: "prev N \<noteq> n"
    and Q: "nxt N \<noteq> 0 \<Longrightarrow> node_heap s (nxt N) = Some Q" and qn: "nxt N \<noteq> n"
    and pq: "prev N \<noteq> 0 \<Longrightarrow> prev N \<noteq> nxt N"
  shows "ares__llist_node_claim s n =
     Some (s\<lparr>node_heap :=
               (let H1 = (if prev N \<noteq> 0 then (node_heap s)(prev N \<mapsto> P\<lparr>nxt := nxt N\<rparr>)
                          else node_heap s);
                    H2 = (if nxt N \<noteq> 0 then H1(nxt N \<mapsto> Q\<lparr>prev := prev N\<rparr>) else H1)
                in H2(n := None)),
             list_heap :=
               (list_heap s)(l \<mapsto> L\<lparr>head := if n = head L then nxt N else head L,
                                       tail := if n = tail L then prev N else tail L,
                                       cnt := cnt L - 1\<rparr>)\<rparr>,
           data N)"
proof -
  have pn': "n \<noteq> prev N" and qn': "n \<noteq> nxt N" using pn qn by auto
  note facts = n l N par L pn qn pn' qn' ares__llist_node_claim_def
    load_list_def load_node_def store_list_def store_node_def Let_def
    eq_commute[of n "head L"] eq_commute[of n "tail L"]
  show ?thesis
  proof (cases "prev N = 0")
    case p0: True
    show ?thesis
    proof (cases "nxt N = 0")
      case q0: True
      show ?thesis
        by (cases "head L = n"; cases "tail L = n") (simp_all add: facts p0 q0)
    next
      case q1: False
      show ?thesis
        by (cases "head L = n"; cases "tail L = n") (simp_all add: facts p0 q1 Q[OF q1])
    qed
  next
    case p1: False
    show ?thesis
    proof (cases "nxt N = 0")
      case q0: True
      show ?thesis
        by (cases "head L = n"; cases "tail L = n") (simp_all add: facts p1 q0 P[OF p1])
    next
      case q1: False
      have "nxt N \<noteq> prev N" using pq[OF p1] by auto
      then show ?thesis
        by (cases "head L = n"; cases "tail L = n")
           (simp_all add: facts p1 q1 P[OF p1] Q[OF q1] pq[OF p1])
    qed
  qed
qed


lemma dseg_live:
  "dseg h l p x xs y \<Longrightarrow> a \<in> set xs \<Longrightarrow> \<exists>A. h a = Some A \<and> parent A = l"
  by (induction xs arbitrary: p x) (auto split: option.splits)

lemma claim_wf:
  assumes wf: "wf_list s l (ys @ n # zs)"
  obtains s' N L where
    "node_heap s n = Some N" and "list_heap s l = Some L"
    and "ares__llist_node_claim s n = Some (s', data N)"
    and "wf_list s' l (ys @ zs)"
    and "node_heap s' n = None"
    and "calls s' = calls s"
    and "list_heap s' = (list_heap s)(l \<mapsto> L\<lparr>head := hd (ys @ zs @ [0]),
                                               tail := last (0 # ys @ zs), cnt := cnt L - 1\<rparr>)"
    and "\<And>a. a \<notin> set (ys @ n # zs) \<Longrightarrow> node_heap s' a = node_heap s a"
    and "\<And>a. a \<noteq> n \<Longrightarrow> map_option data (node_heap s' a) = map_option data (node_heap s a)"
    and "ys \<noteq> [] \<Longrightarrow> map_option nxt (node_heap s' (last ys)) = Some (hd (zs @ [0]))"
    and "zs \<noteq> [] \<Longrightarrow> map_option prev (node_heap s' (hd zs)) = Some (last (0 # ys))"
proof -
  define h where "h = node_heap s"
  from wf obtain L where l: "l \<noteq> 0" and dist: "distinct (ys @ n # zs)"
    and L: "list_heap s l = Some L"
    and seg: "dseg h l 0 (head L) (ys @ n # zs) 0"
    and tl: "tail L = last (n # zs)"
    and len: "unat (cnt L) = length (ys @ n # zs)"
    by (auto simp: wf_list_def h_def split: option.splits)
  from seg obtain N where seg1: "dseg h l 0 (head L) ys n" and n: "n \<noteq> 0"
    and N: "h n = Some N" and pN: "prev N = last (0 # ys)" and par: "parent N = l"
    and seg2: "dseg h l n (nxt N) zs 0"
    by (auto simp: dseg_append split: option.splits)
  have nz1: "0 \<notin> set ys" and nz2: "0 \<notin> set zs"
    using dseg_nonzero[OF seg1] dseg_nonzero[OF seg2] by auto
  have qN: "nxt N = hd (zs @ [0])" using dseg_first[OF seg2] .
  have hdL: "head L = hd (ys @ [n])" using dseg_first[OF seg1] .
  have p_in: "prev N \<in> set ys" if "ys \<noteq> []" using that pN by simp
  have q_in: "nxt N \<in> set zs" if "zs \<noteq> []" using that qN by (cases zs) auto
  have p0: "prev N = 0 \<longleftrightarrow> ys = []"
  proof (cases "ys = []")
    case True
    then show ?thesis using pN by simp
  next
    case False
    from p_in[OF False] nz1 have "prev N \<noteq> 0" by metis
    with False show ?thesis by simp
  qed
  have q0: "nxt N = 0 \<longleftrightarrow> zs = []"
  proof (cases "zs = []")
    case True
    then show ?thesis using qN by simp
  next
    case False
    from q_in[OF False] nz2 have "nxt N \<noteq> 0" by metis
    with False show ?thesis by simp
  qed
  have pn: "prev N \<noteq> n" using p_in p0 n dist by auto
  have qn: "nxt N \<noteq> n" using q_in q0 n dist by auto
  have pq: "prev N \<noteq> nxt N" if "prev N \<noteq> 0" using that p_in q_in p0 q0 dist by auto
  have hd_n: "head L = n \<longleftrightarrow> ys = []" using hdL dist by (cases ys) auto
  have tl_n: "tail L = n \<longleftrightarrow> zs = []" using tl dist by (cases zs rule: rev_cases) auto
  define P where "P = the (h (prev N))"
  define Q where "Q = the (h (nxt N))"
  have P: "node_heap s (prev N) = Some P" if "prev N \<noteq> 0"
    using dseg_live[OF seg1 p_in] that p0 by (auto simp: P_def h_def)
  have Q: "node_heap s (nxt N) = Some Q" if "nxt N \<noteq> 0"
    using dseg_live[OF seg2 q_in] that q0 by (auto simp: Q_def h_def)
  define H1 where "H1 = (if prev N \<noteq> 0 then h(prev N \<mapsto> P\<lparr>nxt := nxt N\<rparr>) else h)"
  define H2 where "H2 = (if nxt N \<noteq> 0 then H1(nxt N \<mapsto> Q\<lparr>prev := prev N\<rparr>) else H1)"
  define L' where "L' = L\<lparr>head := if n = head L then nxt N else head L,
                          tail := if n = tail L then prev N else tail L, cnt := cnt L - 1\<rparr>"
  define s' where "s' = s\<lparr>node_heap := H2(n := None), list_heap := (list_heap s)(l \<mapsto> L')\<rparr>"
  have run: "ares__llist_node_claim s n = Some (s', data N)"
    using claim_result[OF n l N[unfolded h_def] par L P pn Q qn pq]
    by (simp add: s'_def H2_def H1_def L'_def h_def Let_def)
  have headL': "head L' = hd (ys @ zs @ [0])"
    using hd_n hdL qN by (cases ys) (auto simp: L'_def)
  have tailL': "tail L' = last (0 # ys @ zs)"
    using tl_n tl pN by (cases zs rule: rev_cases) (auto simp: L'_def)
  have segA: "dseg (H2(n := None)) l 0 (head L') ys (nxt N)"
  proof (cases ys rule: rev_cases)
    case Nil
    then show ?thesis using headL' qN by simp
  next
    case (snoc ys' p)
    then have p: "prev N = p" and pnz: "prev N \<noteq> 0" and p_notin: "p \<notin> set ys'"
      using pN p0 dist by auto
    have hL: "head L' = head L" using hd_n snoc by (auto simp: L'_def)
    have "dseg H1 l 0 (head L) (ys' @ [p]) (nxt N)"
      using dseg_set_next[OF seg1[unfolded snoc] p_notin, of P "nxt N"] P[OF pnz] pnz p
      by (simp add: H1_def h_def)
    moreover have "nxt N \<notin> set ys" if "nxt N \<noteq> 0" using q_in q0 that dist by auto
    ultimately have "dseg H2 l 0 (head L) ys (nxt N)"
      by (cases "nxt N = 0") (simp_all add: H2_def snoc dseg_frame del: dseg.simps)
    moreover have "n \<notin> set ys" using dist by simp
    ultimately show ?thesis by (simp add: hL dseg_frame)
  qed
  have segB: "dseg (H2(n := None)) l (prev N) (nxt N) zs 0"
  proof (cases zs)
    case Nil
    then show ?thesis using q0 by simp
  next
    case (Cons q zs')
    then have q: "nxt N = q" and qnz: "nxt N \<noteq> 0" and q_notin: "q \<notin> set zs'"
      using qN q0 dist by auto
    have "prev N \<notin> set zs" if "prev N \<noteq> 0" using p_in p0 that dist by auto
    then have "dseg H1 l n q (q # zs') 0"
      using seg2 by (cases "prev N = 0") (simp_all add: H1_def Cons q dseg_frame del: dseg.simps)
    moreover have "H1 q = Some Q"
      using Q[OF qnz] pq q by (auto simp: H1_def h_def)
    ultimately have "dseg (H1(q \<mapsto> Q\<lparr>prev := prev N\<rparr>)) l (prev N) q (q # zs') 0"
      using dseg_set_prev[OF _ q_notin] by blast
    then have "dseg H2 l (prev N) (nxt N) zs 0"
      using qnz q by (simp add: H2_def Cons del: dseg.simps)
    moreover have "n \<notin> set zs" using dist by simp
    ultimately show ?thesis by (simp add: dseg_frame)
  qed
  have "cnt L \<noteq> 0" using len by auto
  then have len': "unat (cnt L') = length (ys @ zs)"
    using len by (simp add: L'_def unat_minus_one)
  have wf': "wf_list s' l (ys @ zs)"
    using l dist segA segB pN tailL' len'
    by (auto simp: wf_list_def s'_def dseg_append)
  have lists': "list_heap s' = (list_heap s)(l \<mapsto> L\<lparr>head := hd (ys @ zs @ [0]),
                                               tail := last (0 # ys @ zs), cnt := cnt L - 1\<rparr>)"
    using headL' tailL' by (simp add: s'_def L'_def)
  have frame: "node_heap s' a = node_heap s a" if "a \<notin> set (ys @ n # zs)" for a
    using that p_in q_in p0 q0 by (auto simp: s'_def H2_def H1_def h_def)
  have datas: "map_option data (node_heap s' a) = map_option data (node_heap s a)" if "a \<noteq> n" for a
    using that P Q by (auto simp: s'_def H2_def H1_def h_def)
  have nbr1: "map_option nxt (node_heap s' (last ys)) = Some (hd (zs @ [0]))" if "ys \<noteq> []"
  proof -
    from that have "prev N = last ys" and "prev N \<noteq> 0" using pN p0 by auto
    then show ?thesis using pn pq qN by (auto simp: s'_def H2_def H1_def)
  qed
  have nbr2: "map_option prev (node_heap s' (hd zs)) = Some (last (0 # ys))" if "zs \<noteq> []"
  proof -
    from that have "nxt N = hd zs" and "nxt N \<noteq> 0" using qN q0 by (cases zs; auto)+
    then show ?thesis using qn pN by (auto simp: s'_def H2_def H1_def)
  qed
  show thesis
    by (rule that[OF N[unfolded h_def] L run wf' _ _ lists' frame datas nbr1 nbr2])
       (simp_all add: s'_def)
qed

subsection \<open>Insertion at the head and at the tail\<close>

text \<open>
  \<open>create\<close> makes a well-formed empty list, and \<open>insert_first\<close> and \<open>insert_last\<close>
  with a fresh block keep a list well formed, with the new node at the front or at the
  end of the chain. The count cannot wrap: the nodes of a chain are distinct addresses
  other than \<open>NULL\<close>.
\<close>

lemma chain_length_bound:
  fixes xs :: "ptr list"
  assumes "distinct xs" and "0 \<notin> set xs" and "m \<notin> set xs" and "m \<noteq> 0"
  shows "length xs + 1 < 2 ^ 64"
proof -
  have "distinct (0 # m # xs)" using assms by auto
  then have "length (0 # m # xs) = card (set (0 # m # xs))"
    by (rule distinct_card[symmetric])
  also have "\<dots> \<le> card (UNIV :: ptr set)"
    by (rule card_mono) simp_all
  also have "\<dots> = 2 ^ 64" by (simp add: card_word)
  finally show ?thesis by simp
qed

lemma create_wf:
  assumes "m \<noteq> 0"
  shows "ares__llist_create s m d = (s\<lparr>list_heap := (list_heap s)(m \<mapsto> \<lparr>head = 0, tail = 0, destruct = d, cnt = 0\<rparr>)\<rparr>, m)"
    and "wf_list (fst (ares__llist_create s m d)) m []"
  using assms by (simp_all add: ares__llist_create_def wf_list_def)

lemma insert_last_wf:
  assumes wf: "wf_list s l xs" and v: "v \<noteq> 0" and m: "m \<noteq> 0" and fresh: "node_heap s m = None"
  shows "\<exists>s'. ares__llist_insert_last s m l v = Some (s', m) \<and> wf_list s' l (xs @ [m])
           \<and> ares__llist_node_val s' m = Some v"
proof -
  define h where "h = node_heap s"
  from wf obtain L where l: "l \<noteq> 0" and dist: "distinct xs"
    and L: "list_heap s l = Some L"
    and seg: "dseg h l 0 (head L) xs 0"
    and tl: "tail L = last (0 # xs)"
    and len: "unat (cnt L) = length xs"
    by (auto simp: wf_list_def h_def split: option.splits)
  have nz: "0 \<notin> set xs" using dseg_nonzero[OF seg] .
  have mx: "m \<notin> set xs" using dseg_live[OF seg, of m] fresh by (auto simp: h_def)
  have hdL: "head L = hd (xs @ [0])" using dseg_first[OF seg] .
  have "length xs + 1 < 2 ^ 64" using chain_length_bound[OF dist nz mx m] .
  then have len': "unat (cnt L + 1) = length xs + 1"
    using len by (simp add: unat_word_ariths)
  define new where "new = \<lparr>data = v, prev = tail L, nxt = 0, parent = l\<rparr>"
  show ?thesis
  proof (cases xs rule: rev_cases)
    case Nil
    then have t0: "tail L = 0" and h0: "head L = 0" using tl hdL by auto
    define s' where "s' = s\<lparr>node_heap := h(m \<mapsto> new),
                            list_heap := (list_heap s)(l \<mapsto> L\<lparr>tail := m, head := m, cnt := cnt L + 1\<rparr>)\<rparr>"
    have run: "ares__llist_insert_last s m l v = Some (s', m)"
      using l v m L t0 h0
      by (simp add: ares__llist_insert_last_def ares__llist_insert_at_def link_tail_def
          load_list_def load_node_def store_list_def store_node_def s'_def new_def h_def)
    have "wf_list s' l [m]"
      using l m len' Nil t0 by (simp add: wf_list_def s'_def new_def)
    moreover have "ares__llist_node_val s' m = Some v"
      using m by (simp add: ares__llist_node_val_def load_node_def s'_def new_def)
    ultimately show ?thesis using run Nil by auto
  next
    case (snoc ys t)
    then have t: "tail L = t" and tnz: "t \<noteq> 0" and tm: "t \<noteq> m" and tys: "t \<notin> set ys"
      using tl nz mx dist by auto
    from snoc have "xs \<noteq> []" by simp
    then have "hd (xs @ [0]) = hd xs" and "hd xs \<in> set xs" by simp_all
    with nz hdL have hnz: "head L \<noteq> 0" by metis
    from dseg_live[OF seg, of t] snoc obtain T where T: "h t = Some T" by auto
    define s' where "s' = s\<lparr>node_heap := h(m \<mapsto> new, t \<mapsto> T\<lparr>nxt := m\<rparr>),
                            list_heap := (list_heap s)(l \<mapsto> L\<lparr>tail := m, cnt := cnt L + 1\<rparr>)\<rparr>"
    have run: "ares__llist_insert_last s m l v = Some (s', m)"
      using l v m L t tnz tm T hnz
      by (simp add: ares__llist_insert_last_def ares__llist_insert_at_def link_tail_def
          load_list_def load_node_def store_list_def store_node_def s'_def new_def h_def)
    have "dseg (h(m \<mapsto> new)) l 0 (head L) (ys @ [t]) 0"
      using seg mx by (simp add: snoc dseg_frame del: dseg.simps)
    moreover have "(h(m \<mapsto> new)) t = Some T" using T tm by simp
    ultimately have "dseg (h(m \<mapsto> new, t \<mapsto> T\<lparr>nxt := m\<rparr>)) l 0 (head L) (ys @ [t]) m"
      using dseg_set_next[OF _ tys] by blast
    then have "dseg (h(m \<mapsto> new, t \<mapsto> T\<lparr>nxt := m\<rparr>)) l 0 (head L) ((ys @ [t]) @ [m]) 0"
      unfolding dseg_append[of _ _ _ _ "ys @ [t]" "[m]"]
      using m tm t by (auto simp: new_def)
    then have "wf_list s' l (xs @ [m])"
      using l dist mx len' tm by (simp add: wf_list_def s'_def snoc)
    moreover have "ares__llist_node_val s' m = Some v"
      using m tm by (simp add: ares__llist_node_val_def load_node_def s'_def new_def)
    ultimately show ?thesis using run by auto
  qed
qed

lemma insert_first_wf:
  assumes wf: "wf_list s l xs" and v: "v \<noteq> 0" and m: "m \<noteq> 0" and fresh: "node_heap s m = None"
  shows "\<exists>s'. ares__llist_insert_first s m l v = Some (s', m) \<and> wf_list s' l (m # xs)
           \<and> ares__llist_node_val s' m = Some v"
proof -
  define h where "h = node_heap s"
  from wf obtain L where l: "l \<noteq> 0" and dist: "distinct xs"
    and L: "list_heap s l = Some L"
    and seg: "dseg h l 0 (head L) xs 0"
    and tl: "tail L = last (0 # xs)"
    and len: "unat (cnt L) = length xs"
    by (auto simp: wf_list_def h_def split: option.splits)
  have nz: "0 \<notin> set xs" using dseg_nonzero[OF seg] .
  have mx: "m \<notin> set xs" using dseg_live[OF seg, of m] fresh by (auto simp: h_def)
  have hdL: "head L = hd (xs @ [0])" using dseg_first[OF seg] .
  have "length xs + 1 < 2 ^ 64" using chain_length_bound[OF dist nz mx m] .
  then have len': "unat (cnt L + 1) = length xs + 1"
    using len by (simp add: unat_word_ariths)
  define new where "new = \<lparr>data = v, prev = 0, nxt = head L, parent = l\<rparr>"
  show ?thesis
  proof (cases xs)
    case Nil
    then have t0: "tail L = 0" and h0: "head L = 0" using tl hdL by auto
    define s' where "s' = s\<lparr>node_heap := h(m \<mapsto> new),
                            list_heap := (list_heap s)(l \<mapsto> L\<lparr>head := m, tail := m, cnt := cnt L + 1\<rparr>)\<rparr>"
    have run: "ares__llist_insert_first s m l v = Some (s', m)"
      using l v m L t0 h0
      by (simp add: ares__llist_insert_first_def ares__llist_insert_at_def link_head_def
          load_list_def load_node_def store_list_def store_node_def s'_def new_def h_def)
    have "wf_list s' l [m]"
      using l m len' Nil h0 by (simp add: wf_list_def s'_def new_def)
    moreover have "ares__llist_node_val s' m = Some v"
      using m by (simp add: ares__llist_node_val_def load_node_def s'_def new_def)
    ultimately show ?thesis using run Nil by auto
  next
    case (Cons a ys)
    then have a: "head L = a" and anz: "a \<noteq> 0" and am: "a \<noteq> m" and ays: "a \<notin> set ys"
      using nz mx dist hdL by auto
    from Cons have "xs \<noteq> []" by simp
    then have "last (0 # xs) = last xs" and "last xs \<in> set xs" by simp_all
    with nz tl have tnz: "tail L \<noteq> 0" by metis
    from dseg_live[OF seg, of a] Cons obtain A where A: "h a = Some A" by auto
    define s' where "s' = s\<lparr>node_heap := h(m \<mapsto> new, a \<mapsto> A\<lparr>prev := m\<rparr>),
                            list_heap := (list_heap s)(l \<mapsto> L\<lparr>head := m, cnt := cnt L + 1\<rparr>)\<rparr>"
    have run: "ares__llist_insert_first s m l v = Some (s', m)"
      using l v m L a anz am A tnz
      by (simp add: ares__llist_insert_first_def ares__llist_insert_at_def link_head_def
          load_list_def load_node_def store_list_def store_node_def s'_def new_def h_def)
    have "dseg (h(m \<mapsto> new)) l 0 a (a # ys) 0"
      using seg mx a by (simp add: Cons dseg_frame del: dseg.simps)
    moreover have "(h(m \<mapsto> new)) a = Some A" using A am by simp
    ultimately have "dseg (h(m \<mapsto> new, a \<mapsto> A\<lparr>prev := m\<rparr>)) l m a (a # ys) 0"
      using dseg_set_prev[OF _ ays] by blast
    then have "dseg (h(m \<mapsto> new, a \<mapsto> A\<lparr>prev := m\<rparr>)) l 0 m (m # a # ys) 0"
      using m am a by (simp add: new_def)
    then have "wf_list s' l (m # xs)"
      using l dist mx len' tl Cons by (simp add: wf_list_def s'_def)
    moreover have "ares__llist_node_val s' m = Some v"
      using m am by (simp add: ares__llist_node_val_def load_node_def s'_def new_def)
    ultimately show ?thesis using run by auto
  qed
qed

text \<open>
  A successful insertion returns the new block, and this block stores the value given,
  which is not \<open>NULL\<close>; on a well-formed list whose nodes all store a value other than
  \<open>NULL\<close>, \<open>first_val\<close> and \<open>last_val\<close> are \<open>NULL\<close> exactly when the chain is empty.
\<close>

lemma node_holds_store_list: "store_list s p f = Some s' \<Longrightarrow> node_holds s n v \<Longrightarrow> node_holds s' n v"
  by (auto simp: store_list_def node_holds_def split: option.splits)

lemma node_holds_store_node:
  assumes "store_node s p f = Some s'" and "node_holds s n v" and "\<And>N. data (f N) = data N"
  shows "node_holds s' n v"
  using assms by (auto simp: store_node_def load_node_def node_holds_def split: option.splits if_splits)

lemma node_holds_if_store_list:
  "(if c then store_list s p f else Some s) = Some s' \<Longrightarrow> node_holds s n v \<Longrightarrow> node_holds s' n v"
  by (cases c) (auto dest: node_holds_store_list)

lemma node_holds_if_store_node:
  assumes "(if c then store_node s p f else Some s) = Some s'" and "node_holds s n v"
    and "\<And>N. data (f N) = data N"
  shows "node_holds s' n v"
  using assms by (cases c) (auto dest: node_holds_store_node)

lemma node_holds_link_head: "link_head s l m = Some s' \<Longrightarrow> node_holds s n v \<Longrightarrow> node_holds s' n v"
  unfolding link_head_def
  apply (clarsimp simp: bind_eq_Some_conv)
  apply (drule (1) node_holds_store_node, simp)
  apply (drule (1) node_holds_store_node, simp)
  apply (drule (1) node_holds_if_store_node, simp)
  apply (erule (1) node_holds_store_list)
  done

lemma node_holds_link_tail: "link_tail s l m = Some s' \<Longrightarrow> node_holds s n v \<Longrightarrow> node_holds s' n v"
  unfolding link_tail_def
  apply (clarsimp simp: bind_eq_Some_conv)
  apply (drule (1) node_holds_store_node, simp)
  apply (drule (1) node_holds_store_node, simp)
  apply (drule (1) node_holds_if_store_node, simp)
  apply (erule (1) node_holds_store_list)
  done

lemma node_holds_link_before: "link_before s a m = Some s' \<Longrightarrow> node_holds s n v \<Longrightarrow> node_holds s' n v"
  unfolding link_before_def
  apply (clarsimp simp: bind_eq_Some_conv)
  apply (drule (1) node_holds_store_node, simp)
  apply (drule (1) node_holds_store_node, simp)
  apply (erule (1) node_holds_store_node, simp)
  done

lemma insert_at_stores_value:
  assumes "ares__llist_insert_at s m l ty a v = Some (s', n)" and "n \<noteq> 0"
  shows "v \<noteq> 0 \<and> n = m \<and> ares__llist_node_val s' n = Some v"
proof -
  from assms have v: "v \<noteq> 0" and l: "l \<noteq> 0" and m: "m \<noteq> 0"
    by (auto simp: ares__llist_insert_at_def split: if_splits)
  define s0 where "s0 = s\<lparr>node_heap := (node_heap s)(m \<mapsto> \<lparr>data = v, prev = 0, nxt = 0, parent = l\<rparr>)\<rparr>"
  have h0: "node_holds s0 m v" by (simp add: node_holds_def s0_def)
  from assms(1) v l m obtain ty' s1 s2 s3 and L1 L2 :: ares__llist where
    s1: "(case ty' of ARES__LLIST_INSERT_HEAD \<Rightarrow> link_head s0 l m
                    | ARES__LLIST_INSERT_TAIL \<Rightarrow> link_tail s0 l m
                    | ARES__LLIST_INSERT_BEFORE \<Rightarrow> link_before s0 a m) = Some s1"
    and s2: "(if tail L1 = 0 then store_list s1 l (\<lambda>L. L\<lparr>tail := m\<rparr>) else Some s1) = Some s2"
    and s3: "(if head L2 = 0 then store_list s2 l (\<lambda>L. L\<lparr>head := m\<rparr>) else Some s2) = Some s3"
    and s4: "store_list s3 l (\<lambda>L. L\<lparr>cnt := cnt L + 1\<rparr>) = Some s'"
    and n: "n = m"
    unfolding ares__llist_insert_at_def s0_def
    by (simp add: Let_def bind_eq_Some_conv) (elim exE conjE, fast)
  from s1 h0 have "node_holds s1 m v"
    by (cases ty') (auto dest: node_holds_link_head node_holds_link_tail node_holds_link_before)
  with s2 have "node_holds s2 m v" by (rule node_holds_if_store_list)
  with s3 have "node_holds s3 m v" by (rule node_holds_if_store_list)
  with s4 have "node_holds s' m v" by (rule node_holds_store_list)
  then have "ares__llist_node_val s' m = Some v"
    using m by (auto simp: node_holds_def ares__llist_node_val_def load_node_def split: option.splits)
  with v n show ?thesis by simp
qed

lemma first_last_val_wf:
  assumes wf: "wf_list s l xs" and vals: "\<And>a. a \<in> set xs \<Longrightarrow> \<not> node_holds s a 0"
  shows "(ares__llist_first_val s l = Some 0 \<longleftrightarrow> xs = [])
       \<and> (ares__llist_last_val s l = Some 0 \<longleftrightarrow> xs = [])"
proof -
  from wf obtain L where l: "l \<noteq> 0" and L: "list_heap s l = Some L"
    and seg: "dseg (node_heap s) l 0 (head L) xs 0"
    and tl: "tail L = last (0 # xs)"
    by (auto simp: wf_list_def split: option.splits)
  have nz: "0 \<notin> set xs" using dseg_nonzero[OF seg] .
  have hdL: "head L = hd (xs @ [0])" using dseg_first[OF seg] .
  have val: "ares__llist_node_val s a \<noteq> Some 0 \<and> a \<noteq> 0" if "a \<in> set xs" for a
    using dseg_live[OF seg that] vals[OF that] nz that
    by (auto simp: ares__llist_node_val_def load_node_def node_holds_def)
  show ?thesis
  proof (cases "xs = []")
    case True
    then show ?thesis using l L hdL tl
      by (simp add: ares__llist_first_val_def ares__llist_last_val_def ares__llist_node_first_def
          ares__llist_node_last_def ares__llist_node_val_def load_list_def)
  next
    case False
    then have "head L \<in> set xs" and "tail L \<in> set xs" using hdL tl by simp_all
    then have "ares__llist_node_val s (head L) \<noteq> Some 0"
      and "ares__llist_node_val s (tail L) \<noteq> Some 0"
      using val by blast+
    then show ?thesis using False l L
      by (simp add: ares__llist_first_val_def ares__llist_last_val_def ares__llist_node_first_def
          ares__llist_node_last_def load_list_def)
  qed
qed

subsection \<open>Removal of a node\<close>

text \<open>
  \<open>claim\<close> never touches the log of destructor calls, and it returns the stored value
  whenever the node, its parent and its two neighbours (where not \<open>NULL\<close>) are live.
\<close>

lemma claim_calls:
  assumes "ares__llist_node_claim s n = Some (s', v)"
  shows "calls s' = calls s"
proof (cases "n = 0")
  case True
  with assms show ?thesis by (simp add: ares__llist_node_claim_def)
next
  case False
  have sn: "calls t' = calls t"
    if "(if c then store_node t p f else Some t) = Some t'" for c t p f t'
    using that by (auto simp: store_node_def load_node_def split: option.splits if_splits)
  have sl: "calls t' = calls t"
    if "(if c then store_list t p f else Some t) = Some t'" for c t p f t'
    using that by (auto simp: store_list_def load_list_def split: option.splits if_splits)
  from assms False obtain s1 s2 s3 s4 and N N2 N3 :: ares__llist_node and L3 L4 :: ares__llist
    where
    s1: "(if prev N \<noteq> 0 then store_node s (prev N) (\<lambda>P. P\<lparr>nxt := nxt N\<rparr>)
              else Some s) = Some s1"
    and s2: "(if nxt N2 \<noteq> 0 then store_node s1 (nxt N2) (\<lambda>Q. Q\<lparr>prev := prev N2\<rparr>)
              else Some s1) = Some s2"
    and s3: "(if n = head L3 then store_list s2 (parent N) (\<lambda>L. L\<lparr>head := nxt N3\<rparr>)
              else Some s2) = Some s3"
    and s4: "(if n = tail L4 then store_list s3 (parent N) (\<lambda>L. L\<lparr>tail := prev N3\<rparr>)
              else Some s3) = Some s4"
    and s5: "store_list (s4\<lparr>node_heap := (node_heap s4)(n := None)\<rparr>)
                (parent N) (\<lambda>L. L\<lparr>cnt := cnt L - 1\<rparr>) = Some s'"
    unfolding ares__llist_node_claim_def
    by (simp add: Let_def bind_eq_Some_conv) (elim exE conjE, fast)
  have "calls s' = calls s4"
    using s5 by (auto simp: store_list_def load_list_def split: option.splits if_splits)
  with sn[OF s1] sn[OF s2] sl[OF s3] sl[OF s4] show ?thesis by simp
qed

lemma claim_defined:
  assumes N: "load_node s n = Some N" and L: "load_list s (parent N) = Some L"
    and P: "prev N = 0 \<or> node_heap s (prev N) \<noteq> None"
    and Q: "nxt N = 0 \<or> node_heap s (nxt N) \<noteq> None"
  shows "\<exists>s'. ares__llist_node_claim s n = Some (s', data N)"
proof -
  from N have n: "n \<noteq> 0" and hN: "node_heap s n = Some N"
    by (auto simp: load_node_def split: if_splits)
  from L have l: "parent N \<noteq> 0" and hL: "list_heap s (parent N) = Some L"
    by (auto simp: load_list_def split: if_splits)
  define s1 where "s1 = (if prev N \<noteq> 0
      then s\<lparr>node_heap := (node_heap s)(prev N \<mapsto> (the (node_heap s (prev N)))\<lparr>nxt := nxt N\<rparr>)\<rparr>
      else s)"
  have e1: "(if prev N \<noteq> 0 then store_node s (prev N) (\<lambda>P. P\<lparr>nxt := nxt N\<rparr>) else Some s) = Some s1"
    using P by (auto simp: store_node_def load_node_def s1_def)
  have n1: "load_node s1 n = Some N"
    using hN n by (auto simp: s1_def load_node_def)
  have q1: "nxt N = 0 \<or> node_heap s1 (nxt N) \<noteq> None"
    using Q by (auto simp: s1_def)
  have l1: "list_heap s1 = list_heap s" by (simp add: s1_def)
  define s2 where "s2 = (if nxt N \<noteq> 0
      then s1\<lparr>node_heap := (node_heap s1)(nxt N \<mapsto> (the (node_heap s1 (nxt N)))\<lparr>prev := prev N\<rparr>)\<rparr>
      else s1)"
  have e2: "(if nxt N \<noteq> 0 then store_node s1 (nxt N) (\<lambda>Q. Q\<lparr>prev := prev N\<rparr>) else Some s1) = Some s2"
    using q1 by (auto simp: store_node_def load_node_def s2_def)
  have n2: "load_node s2 n = Some N"
    using n1 n by (auto simp: s2_def load_node_def split: if_splits)
  have l2: "load_list s2 (parent N) = Some L"
    using hL l l1 by (simp add: s2_def load_list_def)
  define L3 where "L3 = (if n = head L then L\<lparr>head := nxt N\<rparr> else L)"
  define s3 where "s3 = (if n = head L
      then s2\<lparr>list_heap := (list_heap s2)(parent N \<mapsto> L\<lparr>head := nxt N\<rparr>)\<rparr> else s2)"
  have e3: "(if n = head L then store_list s2 (parent N) (\<lambda>L. L\<lparr>head := nxt N\<rparr>) else Some s2) = Some s3"
    using l2 by (simp add: store_list_def s3_def)
  have l3: "load_list s3 (parent N) = Some L3"
    using l2 l by (simp add: s3_def L3_def load_list_def)
  define L4 where "L4 = (if n = tail L3 then L3\<lparr>tail := prev N\<rparr> else L3)"
  define s4 where "s4 = (if n = tail L3
      then s3\<lparr>list_heap := (list_heap s3)(parent N \<mapsto> L3\<lparr>tail := prev N\<rparr>)\<rparr> else s3)"
  have e4: "(if n = tail L3 then store_list s3 (parent N) (\<lambda>L. L\<lparr>tail := prev N\<rparr>) else Some s3) = Some s4"
    using l3 by (simp add: store_list_def s4_def)
  have l4: "load_list (s4\<lparr>node_heap := (node_heap s4)(n := None)\<rparr>) (parent N) = Some L4"
    using l3 l by (simp add: s4_def L4_def load_list_def)
  define s5 where "s5 = s4\<lparr>node_heap := (node_heap s4)(n := None),
                           list_heap := (list_heap s4)(parent N \<mapsto> L4\<lparr>cnt := cnt L4 - 1\<rparr>)\<rparr>"
  have e5: "store_list (s4\<lparr>node_heap := (node_heap s4)(n := None)\<rparr>) (parent N)
              (\<lambda>L. L\<lparr>cnt := cnt L - 1\<rparr>) = Some s5"
    using l4 by (simp add: store_list_def s5_def)
  have "ares__llist_node_claim s n = Some (s5, data N)"
    unfolding ares__llist_node_claim_def
    by (simp add: n N e1 n1 e2 n2 l2 e3 l3 e4 e5 Let_def)
  then show ?thesis ..
qed

text \<open>
  On a well-formed list with the chain \<open>ys @ n # zs\<close>, \<open>claim(n)\<close> returns the value
  stored in \<open>n\<close>; afterwards the list is well formed with the chain \<open>ys @ zs\<close> (so the
  neighbours' \<open>prev\<close> and \<open>next\<close> links, and the head and the tail where \<open>n\<close> was one of
  them, are patched), the count is one less, the block of \<open>n\<close> is released, and the
  blocks outside the list, the values of the other nodes, the other lists and the
  destructor calls are as before.
\<close>

lemma node_claim_unlinks:
  assumes "wf_list s l (ys @ n # zs)"
  shows "\<exists>s' N L. load_node s n = Some N \<and> load_list s l = Some L
     \<and> ares__llist_node_claim s n = Some (s', data N)
     \<and> wf_list s' l (ys @ zs)
     \<and> load_node s' n = None
     \<and> ares__llist_node_first s' l = Some (hd (ys @ zs @ [0]))
     \<and> ares__llist_node_last s' l = Some (last (0 # ys @ zs))
     \<and> ares__llist_len s' l = Some (cnt L - 1)
     \<and> unat (cnt L) = length (ys @ zs) + 1
     \<and> unat (cnt L - 1) = length (ys @ zs)
     \<and> (ys \<noteq> [] \<longrightarrow> ares__llist_node_next s' (last ys) = Some (hd (zs @ [0])))
     \<and> (zs \<noteq> [] \<longrightarrow> ares__llist_node_prev s' (hd zs) = Some (last (0 # ys)))
     \<and> (\<forall>a. a \<notin> set (ys @ n # zs) \<longrightarrow> node_heap s' a = node_heap s a)
     \<and> (\<forall>a. a \<noteq> n \<longrightarrow> map_option data (node_heap s' a) = map_option data (node_heap s a))
     \<and> (\<forall>k. k \<noteq> l \<longrightarrow> list_heap s' k = list_heap s k)
     \<and> calls s' = calls s"
proof (rule claim_wf[OF assms])
  fix s' N L
  assume N: "node_heap s n = Some N" and L: "list_heap s l = Some L"
    and run: "ares__llist_node_claim s n = Some (s', data N)"
    and wf': "wf_list s' l (ys @ zs)"
    and gone: "node_heap s' n = None"
    and calls: "calls s' = calls s"
    and lists': "list_heap s' = (list_heap s)(l \<mapsto> L\<lparr>head := hd (ys @ zs @ [0]),
                                               tail := last (0 # ys @ zs), cnt := cnt L - 1\<rparr>)"
    and frame: "\<And>a. a \<notin> set (ys @ n # zs) \<Longrightarrow> node_heap s' a = node_heap s a"
    and datas: "\<And>a. a \<noteq> n \<Longrightarrow> map_option data (node_heap s' a) = map_option data (node_heap s a)"
    and nbr1: "ys \<noteq> [] \<Longrightarrow> map_option nxt (node_heap s' (last ys)) = Some (hd (zs @ [0]))"
    and nbr2: "zs \<noteq> [] \<Longrightarrow> map_option prev (node_heap s' (hd zs)) = Some (last (0 # ys))"
  from assms have l: "l \<noteq> 0" and nz: "0 \<notin> set (ys @ n # zs)"
    by (auto simp: wf_list_def dest: dseg_nonzero split: option.splits)
  from assms L have len: "unat (cnt L) = length (ys @ n # zs)"
    by (auto simp: wf_list_def split: option.splits)
  have len': "unat (cnt L - 1) = length (ys @ zs)"
    using wf' lists' by (simp add: wf_list_def)
  have next': "ys \<noteq> [] \<longrightarrow> ares__llist_node_next s' (last ys) = Some (hd (zs @ [0]))"
  proof
    assume ne: "ys \<noteq> []"
    then have "last ys \<in> set ys" by simp
    with nz have "last ys \<noteq> 0" by auto
    then show "ares__llist_node_next s' (last ys) = Some (hd (zs @ [0]))"
      using nbr1[OF ne] by (simp add: ares__llist_node_next_def load_node_def)
  qed
  have prev': "zs \<noteq> [] \<longrightarrow> ares__llist_node_prev s' (hd zs) = Some (last (0 # ys))"
  proof
    assume ne: "zs \<noteq> []"
    then have "hd zs \<in> set zs" by simp
    with nz have "hd zs \<noteq> 0" by auto
    then show "ares__llist_node_prev s' (hd zs) = Some (last (0 # ys))"
      using nbr2[OF ne] by (simp add: ares__llist_node_prev_def load_node_def)
  qed
  have c1: "load_node s n = Some N" using N nz by (simp add: load_node_def)
  have c2: "load_list s l = Some L" using L l by (simp add: load_list_def)
  have c3: "load_node s' n = None" using gone by (simp add: load_node_def)
  have c4: "ares__llist_node_first s' l = Some (hd (ys @ zs @ [0]))"
    using l lists' by (simp add: ares__llist_node_first_def load_list_def)
  have c5: "ares__llist_node_last s' l = Some (last (0 # ys @ zs))"
    using l lists' by (simp add: ares__llist_node_last_def load_list_def)
  have c6: "ares__llist_len s' l = Some (cnt L - 1)"
    using l lists' by (simp add: ares__llist_len_def load_list_def)
  have c7: "unat (cnt L) = length (ys @ zs) + 1"
    using len by simp
  have c8: "\<forall>k. k \<noteq> l \<longrightarrow> list_heap s' k = list_heap s k"
    using lists' by simp
  have c9: "\<forall>a. a \<notin> set (ys @ n # zs) \<longrightarrow> node_heap s' a = node_heap s a"
    using frame by blast
  have c10: "\<forall>a. a \<noteq> n \<longrightarrow> map_option data (node_heap s' a) = map_option data (node_heap s a)"
    using datas by blast
  show ?thesis
    apply (rule exI[of _ s'], rule exI[of _ N], rule exI[of _ L])
    apply (intro conjI)
    by (fact c1 c2 run wf' c3 c4 c5 c6 c7 len' next' prev' c9 c10 c8 calls)+
qed

text \<open>The same on the three-node list, claiming the middle node.\<close>

lemma node_claim_unlinks_demo3:
  "wf_list demo3 100 ([1] @ 2 # [3])
   \<and> (\<exists>s'. ares__llist_node_claim demo3 2 = Some (s', 22)
         \<and> wf_list s' 100 [1, 3]
         \<and> load_node s' 2 = None
         \<and> ares__llist_len s' 100 = Some 2
         \<and> ares__llist_node_next s' 1 = Some 3
         \<and> ares__llist_node_prev s' 3 = Some 1)"
proof -
  have h: "wf_list demo3 100 ([1] @ 2 # [3])"
    using wf_demo3 by simp
  from node_claim_unlinks[OF h] obtain s' N L where
    "load_node demo3 2 = Some N" and "load_list demo3 100 = Some L"
    and "ares__llist_node_claim demo3 2 = Some (s', data N)"
    and "wf_list s' 100 ([1] @ [3])"
    and "load_node s' 2 = None"
    and "ares__llist_len s' 100 = Some (cnt L - 1)"
    and "ares__llist_node_next s' (last [1]) = Some (hd ([3] @ [0]))"
    and "ares__llist_node_prev s' (hd [3]) = Some (last (0 # [1]))"
    by auto
  moreover from this have "data N = 22" and "cnt L - 1 = 2"
    by (auto simp: demo3_def load_node_def load_list_def)
  ultimately show ?thesis using h by auto
qed

text \<open>
  C5: for every linked node, \<open>claim(node)\<close> unlinks it from its list, patching the
  neighbours' \<open>prev\<close> and \<open>next\<close> links and the head and the tail where the node was one
  of them, decrements the count by one, releases the node's block and returns the stored
  value. On the code: in \<open>demo2b\<close>, the list left by \<open>insert_before\<close> of \<open>99\<close> before node
  \<open>2\<close>, node \<open>2\<close> is linked (it is the successor of the head and names the list as its
  parent). \<open>claim\<close> of it returns \<open>22\<close>, takes the count to \<open>2\<close> and releases the block,
  but patches the \<open>next\<close> of node \<open>3\<close>, which is what its \<open>prev\<close> names, and not of the head:
  the head's \<open>next\<close> is still the released block, and the walk from the head reads it.
  Claiming node \<open>1\<close> instead leaves node \<open>3\<close> live with its \<open>prev\<close> at the released block
  \<open>1\<close>, and \<open>claim\<close> of node \<open>3\<close> then writes through that pointer.
\<close>

theorem claim_after_insert_before_evaluation:
  "ares__llist_insert_before demo2 3 2 99 = Some (demo2b, 3)
   \<and> ares__llist_node_next demo2b 1 = Some 2
   \<and> ares__llist_node_parent demo2b 2 = Some 100
   \<and> map_option snd (ares__llist_node_claim demo2b 2) = Some 22
   \<and> (do { (s, v) \<leftarrow> ares__llist_node_claim demo2b 2; ares__llist_len s 100 }) = Some 2
   \<and> (do { (s, v) \<leftarrow> ares__llist_node_claim demo2b 2; Some (load_node s 2) }) = Some None
   \<and> (do { (s, v) \<leftarrow> ares__llist_node_claim demo2b 2; ares__llist_node_first s 100 }) = Some 1
   \<and> (do { (s, v) \<leftarrow> ares__llist_node_claim demo2b 2; ares__llist_node_next s 1 }) = Some 2
   \<and> (do { (s, v) \<leftarrow> ares__llist_node_claim demo2b 2;
            h \<leftarrow> ares__llist_node_first s 100;
            n \<leftarrow> ares__llist_node_next s h;
            ares__llist_node_val s n }) = None
   \<and> (do { (s, v) \<leftarrow> ares__llist_node_claim demo2b 1; Some (load_node s 3) })
        = Some (Some \<lparr>data = 99, prev = 1, nxt = 2, parent = 100\<rparr>)
   \<and> (do { (s, v) \<leftarrow> ares__llist_node_claim demo2b 1; Some (load_node s 1) }) = Some None
   \<and> (do { (s, v) \<leftarrow> ares__llist_node_claim demo2b 1; ares__llist_node_claim s 3 }) = None"
proof -
  have a: "ares__llist_insert_before demo2 3 2 99 = Some (demo2b, 3)"
    by (simp add: demo2_def demo2b_def op_defs fun_upd_twist)
  have b: "ares__llist_node_next demo2b 1 = Some 2"
    and c: "ares__llist_node_parent demo2b 2 = Some 100"
    by (simp_all add: demo2b_def op_defs)
  have d: "map_option snd (ares__llist_node_claim demo2b 2) = Some 22"
    and e: "(do { (s, v) \<leftarrow> ares__llist_node_claim demo2b 2; ares__llist_len s 100 }) = Some 2"
    and f: "(do { (s, v) \<leftarrow> ares__llist_node_claim demo2b 2; Some (load_node s 2) }) = Some None"
    and g: "(do { (s, v) \<leftarrow> ares__llist_node_claim demo2b 2; ares__llist_node_first s 100 }) = Some 1"
    and h: "(do { (s, v) \<leftarrow> ares__llist_node_claim demo2b 2; ares__llist_node_next s 1 }) = Some 2"
    and i: "(do { (s, v) \<leftarrow> ares__llist_node_claim demo2b 2;
            h \<leftarrow> ares__llist_node_first s 100;
            n \<leftarrow> ares__llist_node_next s h;
            ares__llist_node_val s n }) = None"
    by (simp_all add: demo2b_def op_defs)
  have j: "(do { (s, v) \<leftarrow> ares__llist_node_claim demo2b 1; Some (load_node s 3) })
        = Some (Some \<lparr>data = 99, prev = 1, nxt = 2, parent = 100\<rparr>)"
    and k: "(do { (s, v) \<leftarrow> ares__llist_node_claim demo2b 1; Some (load_node s 1) }) = Some None"
    and l: "(do { (s, v) \<leftarrow> ares__llist_node_claim demo2b 1; ares__llist_node_claim s 3 }) = None"
    by (simp_all add: demo2b_def op_defs)
  from a b c d e f g h i j k l show ?thesis by simp
qed

text \<open>
  C6: for every linked node, \<open>claim(node)\<close> never invokes the list's destructor, while
  \<open>destroy(node)\<close> invokes it exactly once, with exactly the node's stored value, provided
  that value is not \<open>NULL\<close> and the list's destructor is set, and zero times otherwise.
  Whenever \<open>claim\<close> returns, on any node of any memory, the log of destructor calls is
  the one it started from; and for a node that is live, with its parent live and each of
  its \<open>prev\<close> and \<open>next\<close> either \<open>NULL\<close> or live, \<open>claim\<close> and \<open>destroy\<close> both return, and
  \<open>destroy\<close> appends to the log the one call of the destructor with the stored value
  when both are not \<open>NULL\<close>, and nothing otherwise.
\<close>

theorem claim_silent_destroy_once:
  "(\<forall>s1 v. ares__llist_node_claim s n = Some (s1, v) \<longrightarrow> calls s1 = calls s)
   \<and> (\<forall>N L. load_node s n = Some N \<and> load_list s (parent N) = Some L
            \<and> (prev N = 0 \<or> node_heap s (prev N) \<noteq> None)
            \<and> (nxt N = 0 \<or> node_heap s (nxt N) \<noteq> None) \<longrightarrow>
         (\<exists>s1 s2. ares__llist_node_claim s n = Some (s1, data N) \<and> calls s1 = calls s
            \<and> ares__llist_node_destroy s n = Some s2
            \<and> calls s2 = calls s @ (if data N \<noteq> 0 \<and> destruct L \<noteq> 0
                                    then [(destruct L, data N)] else [])))"
proof (intro conjI allI impI)
  fix s1 v
  assume "ares__llist_node_claim s n = Some (s1, v)"
  then show "calls s1 = calls s" by (rule claim_calls)
next
  fix N L
  assume h: "load_node s n = Some N \<and> load_list s (parent N) = Some L
            \<and> (prev N = 0 \<or> node_heap s (prev N) \<noteq> None)
            \<and> (nxt N = 0 \<or> node_heap s (nxt N) \<noteq> None)"
  then have N: "load_node s n = Some N" and L: "load_list s (parent N) = Some L"
    and P: "prev N = 0 \<or> node_heap s (prev N) \<noteq> None"
    and Q: "nxt N = 0 \<or> node_heap s (nxt N) \<noteq> None"
    by simp_all
  from N have n: "n \<noteq> 0" by (auto simp: load_node_def split: if_splits)
  from claim_defined[OF N L P Q] obtain s1 where
    run: "ares__llist_node_claim s n = Some (s1, data N)" ..
  have calls: "calls s1 = calls s" using run by (rule claim_calls)
  define s2 where "s2 = (if data N \<noteq> 0 \<and> destruct L \<noteq> 0
                          then s1\<lparr>calls := calls s1 @ [(destruct L, data N)]\<rparr> else s1)"
  have d: "ares__llist_node_destroy s n = Some s2"
    using n N L run by (simp add: ares__llist_node_destroy_def s2_def)
  have c: "calls s2 = calls s @ (if data N \<noteq> 0 \<and> destruct L \<noteq> 0
                              then [(destruct L, data N)] else [])"
    using calls by (simp add: s2_def)
  show "\<exists>s1 s2. ares__llist_node_claim s n = Some (s1, data N) \<and> calls s1 = calls s
            \<and> ares__llist_node_destroy s n = Some s2
            \<and> calls s2 = calls s @ (if data N \<noteq> 0 \<and> destruct L \<noteq> 0
                                    then [(destruct L, data N)] else [])"
    apply (rule exI[of _ s1], rule exI[of _ s2])
    apply (intro conjI)
    by (fact run calls d c)+
qed

text \<open>
  C6 on node \<open>3\<close> of \<open>demo2b\<close>, the node that \<open>insert_before\<close> left off the chain from
  the head.
\<close>

theorem claim_silent_destroy_once_witness:
  "load_node demo2b 3 = Some \<lparr>data = 99, prev = 1, nxt = 2, parent = 100\<rparr>
   \<and> load_list demo2b 100 = Some \<lparr>head = 1, tail = 2, destruct = 77, cnt = 3\<rparr>
   \<and> node_heap demo2b 1 \<noteq> None \<and> node_heap demo2b 2 \<noteq> None
   \<and> (\<exists>s1 s2. ares__llist_node_claim demo2b 3 = Some (s1, 99) \<and> calls s1 = []
         \<and> ares__llist_node_destroy demo2b 3 = Some s2 \<and> calls s2 = [(77, 99)])"
proof -
  have N: "load_node demo2b 3 = Some \<lparr>data = 99, prev = 1, nxt = 2, parent = 100\<rparr>"
    by (simp add: demo2b_def load_node_def)
  have L: "load_list demo2b 100 = Some \<lparr>head = 1, tail = 2, destruct = 77, cnt = 3\<rparr>"
    by (simp add: demo2b_def load_list_def)
  have P: "node_heap demo2b 1 \<noteq> None" and Q: "node_heap demo2b 2 \<noteq> None"
    by (simp_all add: demo2b_def)
  have c: "calls demo2b = []" by (simp add: demo2b_def)
  from claim_silent_destroy_once[of demo2b 3]
  have "\<forall>N L. load_node demo2b 3 = Some N \<and> load_list demo2b (parent N) = Some L
            \<and> (prev N = 0 \<or> node_heap demo2b (prev N) \<noteq> None)
            \<and> (nxt N = 0 \<or> node_heap demo2b (nxt N) \<noteq> None) \<longrightarrow>
         (\<exists>s1 s2. ares__llist_node_claim demo2b 3 = Some (s1, data N) \<and> calls s1 = calls demo2b
            \<and> ares__llist_node_destroy demo2b 3 = Some s2
            \<and> calls s2 = calls demo2b @ (if data N \<noteq> 0 \<and> destruct L \<noteq> 0
                                    then [(destruct L, data N)] else []))"
    by (rule conjunct2)
  from this[rule_format, of "\<lparr>data = 99, prev = 1, nxt = 2, parent = 100\<rparr>"
      "\<lparr>head = 1, tail = 2, destruct = 77, cnt = 3\<rparr>"] N L P Q c
  have "\<exists>s1 s2. ares__llist_node_claim demo2b 3 = Some (s1, 99) \<and> calls s1 = []
         \<and> ares__llist_node_destroy demo2b 3 = Some s2 \<and> calls s2 = [(77, 99)]"
    by simp
  with N L P Q show ?thesis by simp
qed

subsection \<open>Destruction of a list\<close>

lemma map_filter_agree:
  "(\<And>a. a \<in> set xs \<Longrightarrow> f a = g a) \<Longrightarrow> List.map_filter f xs = List.map_filter g xs"
  by (induction xs) (auto split: option.splits)

lemma destructor_calls_Cons:
  "destructor_calls d (v # vs) = destructor_calls d [v] @ destructor_calls d vs"
  by (simp add: destructor_calls_def)

lemma destroy_loop_wf:
  assumes "wf_list s l xs" and "list_heap s l = Some L"
  shows "\<exists>s'. destroy_loop s l = Some s' \<and> wf_list s' l []
      \<and> calls s' = calls s @ destructor_calls (destruct L) (values_of s xs)
      \<and> (\<forall>a. node_heap s' a = (if a \<in> set xs then None else node_heap s a))
      \<and> (\<forall>k. k \<noteq> l \<longrightarrow> list_heap s' k = list_heap s k)"
  using assms
proof (induction xs arbitrary: s L)
  case Nil
  then have "ares__llist_node_first s l = Some 0"
    by (auto simp: wf_list_def ares__llist_node_first_def load_list_def)
  then have "destroy_loop s l = Some s"
    by (subst destroy_loop.simps) simp
  then show ?case using Nil
    by (simp add: values_of_def destructor_calls_def)
next
  case (Cons n zs)
  from Cons.prems have l: "l \<noteq> 0" and n: "n \<noteq> 0" and hd: "head L = n"
    and dist: "n \<notin> set zs"
    by (auto simp: wf_list_def split: option.splits)
  have first: "ares__llist_node_first s l = Some n"
    using Cons.prems(2) l hd by (simp add: ares__llist_node_first_def load_list_def)
  from Cons.prems(1) have wf0: "wf_list s l ([] @ n # zs)" by simp
  show ?case
  proof (rule claim_wf[OF wf0])
    fix s1 N L1
    assume N: "node_heap s n = Some N" and L1: "list_heap s l = Some L1"
      and run: "ares__llist_node_claim s n = Some (s1, data N)"
      and wf1: "wf_list s1 l ([] @ zs)"
      and gone: "node_heap s1 n = None"
      and calls1: "calls s1 = calls s"
      and lists1: "list_heap s1 = (list_heap s)(l \<mapsto> L1\<lparr>head := hd ([] @ zs @ [0]),
                                               tail := last (0 # [] @ zs), cnt := cnt L1 - 1\<rparr>)"
      and frame: "\<And>a. a \<notin> set ([] @ n # zs) \<Longrightarrow> node_heap s1 a = node_heap s a"
      and datas: "\<And>a. a \<noteq> n \<Longrightarrow> map_option data (node_heap s1 a) = map_option data (node_heap s a)"
    have LL: "L1 = L" using L1 Cons.prems(2) by simp
    from Cons.prems obtain N0 where "node_heap s n = Some N0" and "parent N0 = l"
      by (auto simp: wf_list_def split: option.splits)
    with N have par: "parent N = l" by simp
    define s2 where "s2 = (if data N \<noteq> 0 \<and> destruct L \<noteq> 0
                            then s1\<lparr>calls := calls s1 @ [(destruct L, data N)]\<rparr> else s1)"
    have d: "ares__llist_node_destroy s n = Some s2"
      using n N Cons.prems(2) l par run
      by (simp add: ares__llist_node_destroy_def s2_def load_node_def load_list_def)
    have nodes2: "node_heap s2 = node_heap s1" and lists2: "list_heap s2 = list_heap s1"
      by (simp_all add: s2_def)
    have calls2: "calls s2 = calls s @ destructor_calls (destruct L) [data N]"
      using calls1 by (auto simp: s2_def destructor_calls_def)
    have wf2: "wf_list s2 l zs"
    proof -
      from wf1 have "wf_list s1 l zs" by simp
      moreover have "wf_list s2 l zs = wf_list s1 l zs"
        unfolding wf_list_def nodes2 lists2 by (rule refl)
      ultimately show ?thesis by simp
    qed
    define L2 where "L2 = L\<lparr>head := hd (zs @ [0]), tail := last (0 # zs), cnt := cnt L - 1\<rparr>"
    have L2: "list_heap s2 l = Some L2"
      using lists1 LL by (simp add: lists2 L2_def)
    from Cons.IH[OF wf2 L2] obtain s' where
      loop: "destroy_loop s2 l = Some s'" and wf': "wf_list s' l []"
      and calls': "calls s' = calls s2 @ destructor_calls (destruct L2) (values_of s2 zs)"
      and nodes': "\<forall>a. node_heap s' a = (if a \<in> set zs then None else node_heap s2 a)"
      and lists': "\<forall>k. k \<noteq> l \<longrightarrow> list_heap s' k = list_heap s2 k"
      by blast
    have run': "destroy_loop s l = Some s'"
      by (subst destroy_loop.simps) (simp add: first n d loop)
    have "values_of s2 zs = values_of s zs"
      unfolding values_of_def
    proof (rule map_filter_agree)
      fix a assume "a \<in> set zs"
      with dist have "a \<noteq> n" by auto
      from datas[OF this] show "map_option data (load_node s2 a) = map_option data (load_node s a)"
        by (simp add: load_node_def nodes2)
    qed
    moreover have "values_of s (n # zs) = data N # values_of s zs"
      using N n by (simp add: values_of_def load_node_def)
    ultimately have c: "calls s' = calls s @ destructor_calls (destruct L) (values_of s (n # zs))"
      using calls' calls2 destructor_calls_Cons[of "destruct L" "data N" "values_of s zs"]
      by (simp add: L2_def)
    have nd: "\<forall>a. node_heap s' a = (if a \<in> set (n # zs) then None else node_heap s a)"
      using nodes' nodes2 gone frame by auto
    have ls: "\<forall>k. k \<noteq> l \<longrightarrow> list_heap s' k = list_heap s k"
      using lists' lists2 lists1 by simp
    show ?thesis
      apply (rule exI[of _ s'])
      apply (intro conjI)
      by (fact run' wf' c nd ls)+
  qed
qed

text \<open>
  C7, as stated: \<open>destroy(list)\<close> removes every remaining node and invokes the list's
  destructor exactly once per node, in head-to-tail order, then releases the list.
  This fails where a node holds \<open>NULL\<close>: \<open>ares__llist_node_destroy\<close> calls the
  destructor only under \<open>val != NULL && destruct != NULL\<close>. The list \<open>demo1z\<close> has the
  destructor \<open>77\<close> and one node, whose value \<open>replace\<close> has set to \<open>NULL\<close>; destroying the
  list removes the node and makes no destructor call.
\<close>

theorem list_destroy_skips_null_value_counterexample:
  "wf_list demo1z 100 [1]
   \<and> map_option destruct (load_list demo1z 100) = Some 77
   \<and> ares__llist_len demo1z 100 = Some 1
   \<and> map_option calls (ares__llist_destroy demo1z 100) = Some (calls demo1z)
   \<and> map_option node_heap (ares__llist_destroy demo1z 100) = Some Map.empty"
  by (simp add: wf_list_def ares__llist_destroy_def destroy_loop.simps demo1z_def op_defs)

text \<open>
  C7, amended: \<open>destroy(list)\<close> on a well-formed list removes every remaining node and,
  when the list's destructor is set, invokes it exactly once for each node whose value is
  not \<open>NULL\<close>, with that value, in head-to-tail order (and makes no call when the
  destructor is not set), then releases the list; the other blocks are untouched.
  \<open>destroy\<close> of an absent list is a no-op.
\<close>

theorem list_destroy_runs_destructors:
  assumes "wf_list s l xs" and "load_list s l = Some L"
  shows "ares__llist_destroy t 0 = Some t \<and>
     (\<exists>s'. ares__llist_destroy s l = Some s'
        \<and> calls s' = calls s @ destructor_calls (destruct L) (values_of s xs)
        \<and> list_heap s' = (list_heap s)(l := None)
        \<and> (\<forall>a. node_heap s' a = (if a \<in> set xs then None else node_heap s a)))"
proof -
  from assms(2) have l: "l \<noteq> 0" and L: "list_heap s l = Some L"
    by (auto simp: load_list_def split: if_splits)
  from destroy_loop_wf[OF assms(1) L] obtain s1 where
    loop: "destroy_loop s l = Some s1" and wf1: "wf_list s1 l []"
    and calls1: "calls s1 = calls s @ destructor_calls (destruct L) (values_of s xs)"
    and nodes1: "\<forall>a. node_heap s1 a = (if a \<in> set xs then None else node_heap s a)"
    and lists1: "\<forall>k. k \<noteq> l \<longrightarrow> list_heap s1 k = list_heap s k"
    by blast
  from wf1 obtain L1 where L1: "load_list s1 l = Some L1"
    by (auto simp: wf_list_def load_list_def split: option.splits)
  define s' where "s' = s1\<lparr>list_heap := (list_heap s1)(l := None)\<rparr>"
  have run: "ares__llist_destroy s l = Some s'"
    using l loop L1 by (simp add: ares__llist_destroy_def s'_def)
  have lists': "list_heap s' = (list_heap s)(l := None)"
    using lists1 by (auto simp: s'_def)
  have a: "ares__llist_destroy t 0 = Some t"
    by (simp add: ares__llist_destroy_def)
  have b: "\<exists>s'. ares__llist_destroy s l = Some s'
        \<and> calls s' = calls s @ destructor_calls (destruct L) (values_of s xs)
        \<and> list_heap s' = (list_heap s)(l := None)
        \<and> (\<forall>a. node_heap s' a = (if a \<in> set xs then None else node_heap s a))"
    apply (rule exI[of _ s'])
    using run calls1 lists' nodes1 by (simp add: s'_def)
  from a b show ?thesis ..
qed

text \<open>The amended C7 on the three-node list.\<close>

theorem list_destroy_runs_destructors_witness:
  "wf_list demo3 100 [1, 2, 3]
   \<and> load_list demo3 100 = Some \<lparr>head = 1, tail = 3, destruct = 77, cnt = 3\<rparr>
   \<and> ares__llist_destroy demo3 0 = Some demo3
   \<and> (\<exists>s'. ares__llist_destroy demo3 100 = Some s'
         \<and> calls s' = [(77, 11), (77, 22), (77, 33)]
         \<and> list_heap s' 100 = None
         \<and> node_heap s' 1 = None \<and> node_heap s' 2 = None \<and> node_heap s' 3 = None)"
proof -
  have L: "load_list demo3 100 = Some \<lparr>head = 1, tail = 3, destruct = 77, cnt = 3\<rparr>"
    by (simp add: demo3_def load_list_def)
  have v: "values_of demo3 [1, 2, 3] = [11, 22, 33]"
    by (simp add: values_of_def demo3_def load_node_def)
  from list_destroy_runs_destructors[OF wf_demo3 L, of demo3] obtain s' where
    "ares__llist_destroy demo3 0 = Some demo3"
    and "ares__llist_destroy demo3 100 = Some s'"
    and "calls s' = calls demo3 @ destructor_calls 77 (values_of demo3 [1, 2, 3])"
    and "list_heap s' = (list_heap demo3)(100 := None)"
    and "\<forall>a. node_heap s' a = (if a \<in> set [1, 2, 3] then None else node_heap demo3 a)"
    by auto
  moreover have "calls demo3 = []" by (simp add: demo3_def)
  ultimately show ?thesis using wf_demo3 L v
    by (auto simp: destructor_calls_def)
qed

end
